theory Spec2Isabelle
  imports Complex_Main "HOL-Library.Multiset" "HOL-Library.Word"
begin

section \<open>Memory model\<close>

text \<open>
  The class \<open>CSysMatrix<ScalarType>\<close> works on raw arrays through pointers
  (\<open>ScalarType*\<close>), and several of its routines are called with pointers into the
  same array. The model therefore has an explicit store: every array the code
  touches is a named buffer holding a list of scalars, and a pointer is a buffer
  together with an offset into it. The template parameter \<open>ScalarType\<close> is a type
  variable of sort \<open>field\<close>, so arithmetic is exact; the code path modelled is the
  native one (neither \<open>USE_MKL\<close> nor \<open>USE_MKL_LAPACK\<close>).
  Indices (\<open>unsigned long\<close>) are natural numbers. Reading or writing outside an
  array is undefined behaviour in the source; the theorems below state the
  bounds they need as hypotheses.
\<close>

datatype buf =
    B_matrix | B_ILU_matrix | B_invM
  | B_block | B_block_weight | B_block_inverse
  | B_prod_row_vector | B_aux_vector | B_sum_vector
  | B_LineletInvDiag | B_LineletVector
  | B_bufD_P2PSend | B_bufD_P2PRecv
  | B_vector nat

type_synonym ptr = "buf \<times> nat"

type_synonym 'a memory = "buf \<Rightarrow> 'a list"

definition rd :: "'a memory \<Rightarrow> ptr \<Rightarrow> nat \<Rightarrow> 'a" where
  "rd m p k = m (fst p) ! (snd p + k)"

definition wr :: "'a memory \<Rightarrow> ptr \<Rightarrow> nat \<Rightarrow> 'a \<Rightarrow> 'a memory" where
  "wr m p k v = m(fst p := (m (fst p))[snd p + k := v])"

datatype error = Error string

datatype COMM_TYPE = SOLUTION_MATRIX | SOLUTION_MATRIXTRANS | COMM_OTHER nat

datatype comm_call = Initiate COMM_TYPE | Complete COMM_TYPE

record CSysMatrix =
  nVar :: nat
  nEqn :: nat
  nPoint :: nat
  nPointDomain :: nat
  nnz :: nat
  row_ptr :: "nat list"
  dia_ptr :: "nat list"
  col_ind :: "nat list"
  nnz_ilu :: nat
  ilu_fill_in :: nat
  row_ptr_ilu :: "nat list"
  dia_ptr_ilu :: "nat list"
  col_ind_ilu :: "nat list"
  nLinelet :: nat
  LineletBool :: "bool list"
  LineletPoint :: "nat list list"

record CSysVector =
  vec_val :: buf
  GetNVar :: nat
  GetNBlk :: nat

text \<open>
  The part of \<open>CGeometry\<close> that the point-to-point communication reads. The maps
  \<open>P2PRecv2Neighbor\<close> and \<open>P2PSend2Neighbor\<close> send the rank of a neighbour to the
  index of its message.
\<close>

record CGeometry =
  nP2PSend :: nat
  nP2PRecv :: nat
  nPoint_P2PSend :: "nat list"
  nPoint_P2PRecv :: "nat list"
  Local_Point_P2PSend :: "nat list"
  Local_Point_P2PRecv :: "nat list"
  P2PSend2Neighbor :: "nat \<Rightarrow> nat"
  P2PRecv2Neighbor :: "nat \<Rightarrow> nat"

text \<open>
  The mutable state: the store, the packet size \<open>geometry->countPerPoint\<close>, and
  the sequence of communication calls made so far.
\<close>

record 'a state =
  mem :: "'a memory"
  countPerPoint :: nat
  comm_log :: "comm_call list"

text \<open>
  What the message-passing layer hands to one call of \<open>CompleteComms\<close>: the
  content of the receive buffer once the messages are in (the segments of
  distinct messages do not overlap, and a segment is only read after
  \<open>Waitany\<close> has reported its message), and the ranks \<open>status.MPI_SOURCE\<close> in the
  order in which \<open>Waitany\<close> reports them.
\<close>

record 'a mpi_env =
  incoming :: "'a list"
  arrival :: "nat list"

text \<open>
  The difference of two values of type \<open>unsigned long\<close> (64 bits): it wraps around.
\<close>

definition ulong_sub :: "nat \<Rightarrow> nat \<Rightarrow> nat" where
  "ulong_sub a b = unat (word_of_nat a - word_of_nat b :: 64 word)"

definition bind_err :: "error + 'b \<Rightarrow> ('b \<Rightarrow> error + 'c) \<Rightarrow> error + 'c" where
  "bind_err r f = (case r of Inl e \<Rightarrow> Inl e | Inr s \<Rightarrow> f s)"

section \<open>Dense block kernels\<close>

text \<open>
  Modelled from the spec: the inline kernels of \<open>CSysMatrix.inl\<close>, which is not
  among the sources. \<open>MatrixVectorProductAdd\<close> is the block-dense
  multiply-accumulate \<open>product += matrix \<cdot> vector\<close> on one \<open>nVar \<times> nVar\<close> block stored
  row-major; \<open>MatrixVectorProductTransp\<close> accumulates with the block transposed.
\<close>

definition MatrixVectorProductAdd ::
  "nat \<Rightarrow> ptr \<Rightarrow> ptr \<Rightarrow> ptr \<Rightarrow> ('a::field) memory \<Rightarrow> 'a memory" where
  "MatrixVectorProductAdd nv matrix vector product m =
     fold (\<lambda>iVar. fold (\<lambda>jVar m.
        wr m product iVar (rd m product iVar + rd m matrix (iVar * nv + jVar) * rd m vector jVar))
        [0..<nv]) [0..<nv] m"

definition MatrixVectorProductTransp ::
  "nat \<Rightarrow> ptr \<Rightarrow> ptr \<Rightarrow> ptr \<Rightarrow> ('a::field) memory \<Rightarrow> 'a memory" where
  "MatrixVectorProductTransp nv matrix vector product m =
     fold (\<lambda>iVar. fold (\<lambda>jVar m.
        wr m product jVar (rd m product jVar + rd m matrix (iVar * nv + jVar) * rd m vector iVar))
        [0..<nv]) [0..<nv] m"

section \<open>Point-to-point communication\<close>

text \<open>
  Modelled from the spec: \<open>CGeometry::AllocateP2PComms\<close>, which is not among the
  sources. It records the larger packet size and replaces both scratch buffers
  by zero-initialised ones sized for it.
\<close>

definition AllocateP2PComms :: "CGeometry \<Rightarrow> nat \<Rightarrow> ('a::zero) state \<Rightarrow> 'a state" where
  "AllocateP2PComms geometry val_countPerPoint s =
     s\<lparr>countPerPoint := val_countPerPoint,
       mem := (mem s)
         (B_bufD_P2PSend :=
            replicate (val_countPerPoint * (nPoint_P2PSend geometry ! nP2PSend geometry)) 0,
          B_bufD_P2PRecv :=
            replicate (val_countPerPoint * (nPoint_P2PRecv geometry ! nP2PRecv geometry)) 0)\<rparr>"

text \<open>
  Packing of one message: the points of the message, \<open>nVar\<close> values each, go from
  the vector \<open>x\<close> to the buffer \<open>bufDSend\<close>. The values are only copied, so the
  scalar type is arbitrary. The count \<open>nSend\<close> is an \<open>int\<close>: where the offsets
  decrease it is negative and the loop \<open>iSend < nSend\<close> does not run, which is
  what the list \<open>[0..<nSend]\<close> with the difference of naturals gives.
\<close>

definition pack_message ::
  "nat \<Rightarrow> nat \<Rightarrow> nat list \<Rightarrow> nat list \<Rightarrow> buf \<Rightarrow> buf \<Rightarrow> nat \<Rightarrow> 'a memory \<Rightarrow> 'a memory" where
  "pack_message nv cpp nPoint_P2P Local_Point_P2P bufDSend x iMessage m =
     (let msg_offset = nPoint_P2P ! iMessage;
          nSend = nPoint_P2P ! (iMessage + 1) - nPoint_P2P ! iMessage
      in fold (\<lambda>iSend m.
           let iPoint = Local_Point_P2P ! (msg_offset + iSend);
               buf_offset = (msg_offset + iSend) * cpp
           in fold (\<lambda>iVar m.
                wr m (bufDSend, 0) (buf_offset + iVar) (rd m (x, 0) (iPoint * nv + iVar)))
                [0..<nv] m)
           [0..<nSend] m)"

definition InitiateComms ::
  "CSysMatrix \<Rightarrow> CGeometry \<Rightarrow> buf \<Rightarrow> COMM_TYPE \<Rightarrow> ('a::zero) state \<Rightarrow> error + 'a state" where
  "InitiateComms A geometry x commType s =
     (case commType of
        COMM_OTHER c \<Rightarrow> Inl (Error ''Unrecognized quantity for point-to-point MPI comms.'')
      | _ \<Rightarrow>
        (let COUNT_PER_POINT = nVar A;
             s1 = (if COUNT_PER_POINT > countPerPoint s
                   then AllocateP2PComms geometry COUNT_PER_POINT s else s);
             s2 = s1\<lparr>comm_log := comm_log s1 @ [Initiate commType]\<rparr>
         in if nP2PSend geometry > 0
            then Inr (s2\<lparr>mem := fold (\<lambda>iMessage m.
                   (case commType of
                      SOLUTION_MATRIX \<Rightarrow>
                        pack_message (nVar A) (countPerPoint s2) (nPoint_P2PSend geometry)
                          (Local_Point_P2PSend geometry) B_bufD_P2PSend x iMessage m
                    | _ \<Rightarrow>
                        pack_message (nVar A) (countPerPoint s2) (nPoint_P2PRecv geometry)
                          (Local_Point_P2PRecv geometry) B_bufD_P2PRecv x iMessage m))
                   [0..<nP2PSend geometry] (mem s2)\<rparr>)
            else Inr s2))"

text \<open>
  Unpacking of one message in \<open>CompleteComms\<close>. In forward mode the received
  values are assigned to the destination slots, in reverse mode they are added
  to them. The only operation on scalars is the addition \<open>+=\<close> of the reverse
  mode; the scalar type is any type with an addition, of which no law is
  assumed, so that what is proved of these functions holds for floating-point
  addition as well. The count \<open>nRecv\<close> is an \<open>unsigned long\<close>: where the offsets
  decrease, the difference wraps around.
\<close>

definition unpack_message ::
  "bool \<Rightarrow> nat \<Rightarrow> nat \<Rightarrow> nat list \<Rightarrow> nat list \<Rightarrow> buf \<Rightarrow> buf \<Rightarrow> nat \<Rightarrow> ('a::plus) memory \<Rightarrow> 'a memory" where
  "unpack_message accumulate nv cpp nPoint_P2P Local_Point_P2P bufDRecv x jRecv m =
     (let msg_offset = nPoint_P2P ! jRecv;
          nRecv = ulong_sub (nPoint_P2P ! (jRecv + 1)) (nPoint_P2P ! jRecv)
      in fold (\<lambda>iRecv m.
           let iPoint = Local_Point_P2P ! (msg_offset + iRecv);
               buf_offset = (msg_offset + iRecv) * cpp
           in fold (\<lambda>iVar m.
                wr m (x, 0) (iPoint * nv + iVar)
                  (if accumulate
                   then rd m (x, 0) (iPoint * nv + iVar) + rd m (bufDRecv, 0) (buf_offset + iVar)
                   else rd m (bufDRecv, 0) (buf_offset + iVar)))
                [0..<nv] m)
           [0..<nRecv] m)"

definition CompleteComms ::
  "CSysMatrix \<Rightarrow> CGeometry \<Rightarrow> buf \<Rightarrow> COMM_TYPE \<Rightarrow> ('a::plus) mpi_env \<Rightarrow> 'a state \<Rightarrow> error + 'a state" where
  "CompleteComms A geometry x commType env s =
     (let s1 = s\<lparr>comm_log := comm_log s @ [Complete commType]\<rparr>
      in if nP2PRecv geometry > 0
         then (case commType of
             SOLUTION_MATRIX \<Rightarrow>
               Inr (s1\<lparr>mem := fold (\<lambda>iMessage m.
                      let source = arrival env ! iMessage;
                          jRecv = P2PRecv2Neighbor geometry source
                      in unpack_message False (nVar A) (countPerPoint s1) (nPoint_P2PRecv geometry)
                           (Local_Point_P2PRecv geometry) B_bufD_P2PRecv x jRecv m)
                    [0..<nP2PRecv geometry] ((mem s1)(B_bufD_P2PRecv := incoming env))\<rparr>)
           | SOLUTION_MATRIXTRANS \<Rightarrow>
               Inr (s1\<lparr>mem := fold (\<lambda>iMessage m.
                      let source = arrival env ! iMessage;
                          jRecv = P2PSend2Neighbor geometry source
                      in unpack_message True (nVar A) (countPerPoint s1) (nPoint_P2PSend geometry)
                           (Local_Point_P2PSend geometry) B_bufD_P2PSend x jRecv m)
                    [0..<nP2PRecv geometry] ((mem s1)(B_bufD_P2PSend := incoming env))\<rparr>)
           | COMM_OTHER c \<Rightarrow> Inl (Error ''Unrecognized quantity for point-to-point MPI comms.''))
         else Inr s1)"

section \<open>Matrix-vector products\<close>

text \<open>
  \<open>NDEBUG\<close> is the preprocessor symbol of the build: the consistency checks are
  compiled only when it is not defined. A call of \<open>SU2_MPI::Error\<close> ends the run;
  it is the result \<open>Inl\<close>. The operands \<open>vec\<close> and \<open>prod\<close> are vectors of the
  caller, each with its own buffer in the store.
\<close>

definition MatrixVectorProduct ::
  "bool \<Rightarrow> CSysMatrix \<Rightarrow> CGeometry \<Rightarrow> CSysVector \<Rightarrow> CSysVector \<Rightarrow> ('a::field) mpi_env \<Rightarrow>
   'a state \<Rightarrow> error + 'a state" where
  "MatrixVectorProduct NDEBUG A geometry vec prd env s =
     (if \<not> NDEBUG \<and> (nVar A \<noteq> GetNVar vec \<or> nVar A \<noteq> GetNVar prd)
      then Inl (Error ''nVar values incompatible.'')
      else if \<not> NDEBUG \<and> (nPoint A \<noteq> GetNBlk vec \<or> nPoint A \<noteq> GetNBlk prd)
      then Inl (Error ''nPoint and nBlk values incompatible.'')
      else
        (let m0 = (mem s)(vec_val prd := map (\<lambda>v. 0) (mem s (vec_val prd)));
             m1 = fold (\<lambda>row_i m.
                    let prod_begin = row_i * nVar A
                    in fold (\<lambda>index m.
                         let vec_begin = (col_ind A ! index) * nVar A;
                             mat_begin = index * nVar A * nVar A
                         in MatrixVectorProductAdd (nVar A) (B_matrix, mat_begin)
                              (vec_val vec, vec_begin) (vec_val prd, prod_begin) m)
                         [row_ptr A ! row_i ..< row_ptr A ! (row_i + 1)] m)
                    [0..<nPointDomain A] m0
         in bind_err (InitiateComms A geometry (vec_val prd) SOLUTION_MATRIX (s\<lparr>mem := m1\<rparr>))
              (CompleteComms A geometry (vec_val prd) SOLUTION_MATRIX env)))"

definition MatrixVectorProductTransposed ::
  "bool \<Rightarrow> CSysMatrix \<Rightarrow> CGeometry \<Rightarrow> CSysVector \<Rightarrow> CSysVector \<Rightarrow> ('a::field) mpi_env \<Rightarrow>
   'a state \<Rightarrow> error + 'a state" where
  "MatrixVectorProductTransposed NDEBUG A geometry vec prd env s =
     (if \<not> NDEBUG \<and> (nVar A \<noteq> GetNVar vec \<or> nVar A \<noteq> GetNVar prd)
      then Inl (Error ''nVar values incompatible.'')
      else if \<not> NDEBUG \<and> (nPoint A \<noteq> GetNBlk vec \<or> nPoint A \<noteq> GetNBlk prd)
      then Inl (Error ''nPoint and nBlk values incompatible.'')
      else
        (let m0 = (mem s)(vec_val prd := map (\<lambda>v. 0) (mem s (vec_val prd)));
             m1 = fold (\<lambda>row_i m.
                    let vec_begin = row_i * nVar A
                    in fold (\<lambda>index m.
                         let prod_begin = (col_ind A ! index) * nVar A;
                             mat_begin = index * nVar A * nVar A
                         in MatrixVectorProductTransp (nVar A) (B_matrix, mat_begin)
                              (vec_val vec, vec_begin) (vec_val prd, prod_begin) m)
                         [row_ptr A ! row_i ..< row_ptr A ! (row_i + 1)] m)
                    [0..<nPointDomain A] m0
         in bind_err (InitiateComms A geometry (vec_val prd) SOLUTION_MATRIXTRANS (s\<lparr>mem := m1\<rparr>))
              (CompleteComms A geometry (vec_val prd) SOLUTION_MATRIXTRANS env)))"


section \<open>List-level view of the message unpacking\<close>

text \<open>
  One write of \<open>CompleteComms\<close> seen on the destination vector alone: the slot
  \<open>fst ds\<close> takes (or, accumulating, is increased by) the buffer entry \<open>snd ds\<close>.
  \<open>msg_pairs\<close> lists the (slot, buffer index) pairs of one message in the order
  of the two loops, \<open>all_pairs\<close> those of a sequence of sources.
\<close>

definition put :: "bool \<Rightarrow> ('a::plus) list \<Rightarrow> nat \<times> nat \<Rightarrow> 'a list \<Rightarrow> 'a list" where
  "put accumulate B ds xs =
     xs[fst ds := (if accumulate then xs ! fst ds + B ! snd ds else B ! snd ds)]"

definition msg_pairs :: "nat \<Rightarrow> nat \<Rightarrow> nat list \<Rightarrow> nat list \<Rightarrow> nat \<Rightarrow> (nat \<times> nat) list" where
  "msg_pairs nv cpp nPoint_P2P Local_Point_P2P j =
     concat (map (\<lambda>i. map (\<lambda>v. ((Local_Point_P2P ! (nPoint_P2P ! j + i)) * nv + v,
                                (nPoint_P2P ! j + i) * cpp + v)) [0..<nv])
       [0..<nPoint_P2P ! (j + 1) - nPoint_P2P ! j])"

definition all_pairs :: "nat \<Rightarrow> nat \<Rightarrow> nat list \<Rightarrow> nat list \<Rightarrow> (nat \<Rightarrow> nat) \<Rightarrow> nat list \<Rightarrow> (nat \<times> nat) list" where
  "all_pairs nv cpp NP LP R srcs = concat (map (\<lambda>src. msg_pairs nv cpp NP LP (R src)) srcs)"

text \<open>
  The destination points of message \<open>j\<close>, in the order of the message.
\<close>

definition msg_points :: "nat list \<Rightarrow> nat list \<Rightarrow> nat \<Rightarrow> nat list" where
  "msg_points nPoint_P2P Local_Point_P2P j =
     map (\<lambda>i. Local_Point_P2P ! (nPoint_P2P ! j + i)) [0..<nPoint_P2P ! (j + 1) - nPoint_P2P ! j]"

definition block_mac ::
  "nat \<Rightarrow> ('a::field) list \<Rightarrow> nat \<Rightarrow> 'a list \<Rightarrow> nat \<Rightarrow> nat \<Rightarrow> 'a list \<Rightarrow> 'a list" where
  "block_mac nv M mo V vo po P =
     fold (\<lambda>iVar. fold (\<lambda>jVar P.
        P[po + iVar := P ! (po + iVar) + M ! (mo + (iVar * nv + jVar)) * V ! (vo + jVar)])
        [0..<nv]) [0..<nv] P"

definition row_sum ::
  "nat \<Rightarrow> nat list \<Rightarrow> nat list \<Rightarrow> ('a::field) list \<Rightarrow> 'a list \<Rightarrow> nat \<Rightarrow> nat \<Rightarrow> 'a" where
  "row_sum nv rp ci M V row_i iVar =
     (\<Sum>index\<in>{rp ! row_i..<rp ! (row_i + 1)}. \<Sum>jVar<nv.
        M ! (index * nv * nv + (iVar * nv + jVar)) * V ! (ci ! index * nv + jVar))"

section \<open>Well-formed inputs\<close>

text \<open>
  The vectors of the caller live in the buffers \<open>B_vector n\<close>. A block-CSR pattern
  is well formed when its row pointers are sorted and end at the number of
  entries and every column index is a point. The offsets of \<open>n\<close> messages into a
  list of points are well formed when they start at zero, do not decrease, and
  end at the length of the list, which an \<open>unsigned long\<close> can hold. The receive
  lists of the geometry are well formed when their offsets are and the list
  \<open>Local_Point_P2PRecv\<close> names every ghost point at most once and owned points
  never; the send lists when their offsets are and \<open>Local_Point_P2PSend\<close> names
  owned points only. \<open>all_arrive\<close> says that \<open>Waitany\<close> reports one message of each
  neighbour.
\<close>

definition is_vector :: "buf \<Rightarrow> bool" where
  "is_vector b = (case b of B_vector n \<Rightarrow> True | _ \<Rightarrow> False)"

definition wf_pattern :: "nat \<Rightarrow> nat \<Rightarrow> nat list \<Rightarrow> nat list \<Rightarrow> bool" where
  "wf_pattern nRows nCols rp ci \<longleftrightarrow>
     length rp = nRows + 1 \<and> sorted rp \<and> rp ! nRows = length ci \<and> (\<forall>c\<in>set ci. c < nCols)"

definition wf_offsets :: "nat \<Rightarrow> nat list \<Rightarrow> nat list \<Rightarrow> bool" where
  "wf_offsets n nPoint_P2P Local_Point_P2P \<longleftrightarrow>
     nPoint_P2P ! 0 = 0 \<and>
     (\<forall>j\<in>set [0..<n]. nPoint_P2P ! j \<le> nPoint_P2P ! (j + 1)) \<and>
     nPoint_P2P ! n = length Local_Point_P2P \<and>
     length Local_Point_P2P < 2 ^ 64"

definition wf_recv :: "CSysMatrix \<Rightarrow> CGeometry \<Rightarrow> bool" where
  "wf_recv A geometry \<longleftrightarrow>
     wf_offsets (nP2PRecv geometry) (nPoint_P2PRecv geometry) (Local_Point_P2PRecv geometry) \<and>
     distinct (Local_Point_P2PRecv geometry) \<and>
     (\<forall>p\<in>set (Local_Point_P2PRecv geometry). nPointDomain A \<le> p \<and> p < nPoint A)"

definition wf_send :: "CSysMatrix \<Rightarrow> CGeometry \<Rightarrow> bool" where
  "wf_send A geometry \<longleftrightarrow>
     wf_offsets (nP2PSend geometry) (nPoint_P2PSend geometry) (Local_Point_P2PSend geometry) \<and>
     (\<forall>p\<in>set (Local_Point_P2PSend geometry). p < nPointDomain A)"

definition all_arrive :: "CGeometry \<Rightarrow> 'a mpi_env \<Rightarrow> bool" where
  "all_arrive geometry env \<longleftrightarrow>
     mset (map (P2PRecv2Neighbor geometry) (arrival env)) = mset [0..<nP2PRecv geometry]"

section \<open>Enforcing a solution at a node\<close>

text \<open>
  \<open>column_block_update\<close> is the body of the test \<open>col_ind[index] == node_i\<close> in
  \<open>EnforceSolutionAtNode\<close>: the product of the block with the enforced values
  \<open>x_i\<close> is taken off the right-hand side \<open>b\<close> at \<open>iPoint\<close>, then the block gets ones
  on its diagonal (in the row of \<open>node_i\<close>) or is set to zero (elsewhere).
\<close>

definition column_block_update ::
  "nat \<Rightarrow> nat \<Rightarrow> ptr \<Rightarrow> buf \<Rightarrow> nat \<Rightarrow> nat \<Rightarrow> ('a::field) memory \<Rightarrow> 'a memory" where
  "column_block_update nv node_i x_i b iPoint index m =
     (let mat_begin = index * nv * nv;
          m' = fold (\<lambda>iVar. fold (\<lambda>jVar m.
                 wr m (b, 0) (iPoint * nv + iVar)
                   (rd m (b, 0) (iPoint * nv + iVar)
                    - rd m (B_matrix, 0) (mat_begin + iVar * nv + jVar) * rd m x_i jVar))
                 [0..<nv]) [0..<nv] m
      in if iPoint = node_i
         then fold (\<lambda>iVar m. wr m (B_matrix, 0) (mat_begin + iVar * (nv + 1)) 1) [0..<nv] m'
         else fold (\<lambda>iVar m. wr m (B_matrix, 0) (mat_begin + iVar) 0) [0..<nv * nv] m')"

definition EnforceSolutionAtNode ::
  "CSysMatrix \<Rightarrow> nat \<Rightarrow> ptr \<Rightarrow> buf \<Rightarrow> ('a::field) memory \<Rightarrow> 'a memory" where
  "EnforceSolutionAtNode A node_i x_i b m =
     (let m1 = fold (\<lambda>index m. wr m (B_matrix, 0) index 0)
                 [row_ptr A ! node_i * nVar A * nVar A ..<
                  row_ptr A ! (node_i + 1) * nVar A * nVar A] m;
          m2 = fold (\<lambda>iPoint m.
                 fold (\<lambda>index m.
                   if col_ind A ! index = node_i
                   then column_block_update (nVar A) node_i x_i b iPoint index m
                   else m)
                 [row_ptr A ! iPoint ..< row_ptr A ! (iPoint + 1)] m)
                 [0..<nPoint A] m1
      in fold (\<lambda>iVar m. wr m (b, 0) (node_i * nVar A + iVar) (rd m x_i iVar)) [0..<nVar A] m2)"

text \<open>
  The same step seen on the two lists it changes, for a hit \<open>h = (iPoint, index)\<close>:
  \<open>rhs_sub\<close> on the right-hand side, \<open>block_reset\<close> on the matrix; \<open>column_hits\<close> lists
  the hits in the order of the two loops.
\<close>

definition rhs_sub ::
  "nat \<Rightarrow> ('a::field) list \<Rightarrow> nat \<Rightarrow> 'a list \<Rightarrow> nat \<times> nat \<Rightarrow> 'a list \<Rightarrow> 'a list" where
  "rhs_sub nv X xo M h B =
     fold (\<lambda>iVar. fold (\<lambda>jVar B.
        B[fst h * nv + iVar := B ! (fst h * nv + iVar)
            - M ! (snd h * nv * nv + iVar * nv + jVar) * X ! (xo + jVar)])
        [0..<nv]) [0..<nv] B"

definition block_reset :: "nat \<Rightarrow> nat \<Rightarrow> nat \<times> nat \<Rightarrow> ('a::field) list \<Rightarrow> 'a list" where
  "block_reset nv node_i h M =
     (if fst h = node_i
      then fold (\<lambda>iVar M. M[snd h * nv * nv + iVar * (nv + 1) := 1]) [0..<nv] M
      else fold (\<lambda>iVar M. M[snd h * nv * nv + iVar := 0]) [0..<nv * nv] M)"

definition column_hits :: "nat list \<Rightarrow> nat list \<Rightarrow> nat \<Rightarrow> nat \<Rightarrow> (nat \<times> nat) list" where
  "column_hits rp ci node_i n =
     concat (map (\<lambda>p. map (Pair p) (filter (\<lambda>index. ci ! index = node_i) [rp ! p..<rp ! (p + 1)]))
       [0..<n])"

section \<open>Messages between partitions\<close>


text \<open>
  Modelled from the spec: the transport of one message by the message-passing
  layer (\<open>PostP2PSends\<close>, \<open>PostP2PRecvs\<close> and \<open>Waitany\<close> of \<open>CGeometry\<close> and \<open>SU2_MPI\<close>,
  which are not among the sources). Message \<open>jSend\<close> of the sender, that is
  \<open>nPoint_P2PSend[jSend+1] - nPoint_P2PSend[jSend]\<close> points of \<open>countPerPoint\<close> values
  each, starting at \<open>nPoint_P2PSend[jSend]*countPerPoint\<close> in its send buffer,
  arrives at \<open>nPoint_P2PRecv[jRecv]*countPerPoint\<close> in the receive buffer of the
  receiver, where message \<open>jRecv\<close> has the same number of points.
\<close>

definition delivers ::
  "nat \<Rightarrow> nat list \<Rightarrow> nat \<Rightarrow> 'a list \<Rightarrow> nat list \<Rightarrow> nat \<Rightarrow> 'a list \<Rightarrow> bool" where
  "delivers cpp nPoint_Send jSend bufDSend nPoint_Recv jRecv bufDRecv \<longleftrightarrow>
     nPoint_Recv ! (jRecv + 1) - nPoint_Recv ! jRecv =
       nPoint_Send ! (jSend + 1) - nPoint_Send ! jSend \<and>
     (\<forall>t\<in>set [0..<(nPoint_Send ! (jSend + 1) - nPoint_Send ! jSend) * cpp].
        bufDRecv ! (nPoint_Recv ! jRecv * cpp + t) = bufDSend ! (nPoint_Send ! jSend * cpp + t))"

text \<open>
  What a call of \<open>MatrixVectorProduct\<close> on one partition requires of its caller:
  two distinct vectors of the caller that conform to the matrix, a well-formed
  block-CSR pattern with its array of blocks, well-formed send and receive
  lists, one arriving message per neighbour, and a send buffer that is large
  enough unless the call reallocates it.
\<close>

definition conforming ::
  "CSysMatrix \<Rightarrow> CGeometry \<Rightarrow> CSysVector \<Rightarrow> CSysVector \<Rightarrow> 'a mpi_env \<Rightarrow> 'a state \<Rightarrow> bool" where
  "conforming A geometry vec prd env s \<longleftrightarrow>
     is_vector (vec_val vec) \<and> is_vector (vec_val prd) \<and> vec_val vec \<noteq> vec_val prd \<and>
     GetNVar vec = nVar A \<and> GetNVar prd = nVar A \<and>
     GetNBlk vec = nPoint A \<and> GetNBlk prd = nPoint A \<and>
     length (mem s (vec_val vec)) = nPoint A * nVar A \<and>
     length (mem s (vec_val prd)) = nPoint A * nVar A \<and>
     wf_pattern (nPoint A) (nPoint A) (row_ptr A) (col_ind A) \<and>
     length (mem s B_matrix) = length (col_ind A) * nVar A * nVar A \<and>
     nPointDomain A \<le> nPoint A \<and>
     wf_recv A geometry \<and> wf_send A geometry \<and> all_arrive geometry env \<and>
     (nVar A \<le> countPerPoint s \<longrightarrow>
        countPerPoint s * length (Local_Point_P2PSend geometry) \<le> length (mem s B_bufD_P2PSend))"

section \<open>Construction of the linelets\<close>

text \<open>
  The arithmetic of \<open>su2double\<close> as \<open>BuildLineletPreconditioner\<close> uses it: the value
  of a decimal literal, the sum, the product and the quotient of two values, the
  square root, and the comparison \<open><\<close>. It is a parameter of the model, and no law
  is assumed of it: what is proved holds for the arithmetic of IEEE doubles,
  where sums, products and quotients are rounded and a division by zero gives
  an infinity or a NaN, as it does for the real numbers.
\<close>

record 'a arith =
  fp_literal :: "rat \<Rightarrow> 'a"
  fp_add :: "'a \<Rightarrow> 'a \<Rightarrow> 'a"
  fp_mul :: "'a \<Rightarrow> 'a \<Rightarrow> 'a"
  fp_div :: "'a \<Rightarrow> 'a \<Rightarrow> 'a"
  fp_sqrt :: "'a \<Rightarrow> 'a"
  fp_less :: "'a \<Rightarrow> 'a \<Rightarrow> bool"

text \<open>
  The part of the mesh (\<open>CGeometry\<close>) and of the configuration (\<open>CConfig\<close>) that
  \<open>BuildLineletPreconditioner\<close> reads: for every point its neighbours
  (\<open>GetPoint\<close>, \<open>GetnPoint\<close>), whether the partition owns it (\<open>GetDomain\<close>) and its
  volume; the edge of two points and the normal of an edge; the nodes of the
  vertices of every marker, and the kind of boundary condition of every
  marker. The volumes and the normals are values of type \<open>su2double\<close>.
\<close>

datatype BC_KIND = HEAT_FLUX | ISOTHERMAL | EULER_WALL | DISPLACEMENT_BOUNDARY | OTHER_BC nat

record 'a CMesh =
  nDim :: nat
  node_GetPoint :: "nat list list"
  node_GetDomain :: "bool list"
  node_GetVolume :: "'a list"
  FindEdge :: "nat \<Rightarrow> nat \<Rightarrow> nat"
  edge_GetNormal :: "'a list list"
  vertex_GetNode :: "nat list list"
  Marker_All_KindBC :: "BC_KIND list"

text \<open>
  The weight of the face between \<open>iPoint\<close> and \<open>jPoint\<close>, as both loops over the
  neighbours compute it: \<open>0.5*area*((1.0/volume_iPoint)+(1.0/volume_jPoint))\<close>.
\<close>

definition face_weight :: "'a arith \<Rightarrow> 'a CMesh \<Rightarrow> nat \<Rightarrow> nat \<Rightarrow> 'a" where
  "face_weight fp geometry iPoint jPoint =
     (let iEdge = FindEdge geometry iPoint jPoint;
          normal = edge_GetNormal geometry ! iEdge;
          area = (if nDim geometry = 3
                  then fp_sqrt fp (fp_add fp (fp_add fp (fp_mul fp (normal ! 0) (normal ! 0))
                                                       (fp_mul fp (normal ! 1) (normal ! 1)))
                                           (fp_mul fp (normal ! 2) (normal ! 2)))
                  else fp_sqrt fp (fp_add fp (fp_mul fp (normal ! 0) (normal ! 0))
                                           (fp_mul fp (normal ! 1) (normal ! 1))));
          volume_iPoint = node_GetVolume geometry ! iPoint;
          volume_jPoint = node_GetVolume geometry ! jPoint
      in fp_mul fp (fp_mul fp (fp_literal fp (1 / 2)) area)
           (fp_add fp (fp_div fp (fp_literal fp 1) volume_iPoint)
                      (fp_div fp (fp_literal fp 1) volume_jPoint)))"

text \<open>
  \<open>check_Point[jPoint]\<close>; outside the vector the source reads undefined memory,
  the model reads \<open>False\<close>.
\<close>

definition check_at :: "bool list \<Rightarrow> nat \<Rightarrow> bool" where
  "check_at check_Point jPoint \<longleftrightarrow> jPoint < length check_Point \<and> check_Point ! jPoint"

text \<open>
  The first loop over the neighbours: the largest weight among the unvisited
  owned neighbours, starting from \<open>0.0\<close>; \<open>max(a, b)\<close> is \<open>b\<close> if \<open>a < b\<close> and \<open>a\<close> otherwise.
\<close>

definition max_weight_at :: "'a arith \<Rightarrow> 'a CMesh \<Rightarrow> bool list \<Rightarrow> nat \<Rightarrow> 'a" where
  "max_weight_at fp geometry check_Point iPoint =
     fold (\<lambda>iNode max_weight.
        let jPoint = node_GetPoint geometry ! iPoint ! iNode
        in if check_at check_Point jPoint \<and> node_GetDomain geometry ! jPoint
           then (let weight = face_weight fp geometry iPoint jPoint
                 in if fp_less fp max_weight weight then weight else max_weight)
           else max_weight)
       [0..<length (node_GetPoint geometry ! iPoint)] (fp_literal fp 0)"

text \<open>
  One pass of the inner \<open>do\<close> loop up to the decision: the point to add to the
  linelet, if \<open>add_point\<close> holds at the end.
\<close>

definition next_linelet_point ::
  "'a arith \<Rightarrow> 'a CMesh \<Rightarrow> nat list \<Rightarrow> bool list \<Rightarrow> nat \<Rightarrow> nat option" where
  "next_linelet_point fp geometry linelet check_Point index_Point =
     (let alpha = fp_literal fp (9 / 10);
          iPoint = linelet ! index_Point;
          max_weight = max_weight_at fp geometry check_Point iPoint;
          (add_point, counter, next_Point) =
            fold (\<lambda>iNode (add_point, counter, next_Point).
               let jPoint = node_GetPoint geometry ! iPoint ! iNode;
                   weight = face_weight fp geometry iPoint jPoint
               in if (check_at check_Point jPoint \<and>
                      fp_less fp alpha (fp_div fp weight max_weight) \<and>
                      node_GetDomain geometry ! jPoint) \<and>
                     (index_Point = 0 \<or>
                      (index_Point > 0 \<and> jPoint \<noteq> linelet ! (index_Point - 1)))
                  then (True, counter + 1, jPoint)
                  else (add_point, counter, next_Point))
              [0..<length (node_GetPoint geometry ! iPoint)]
              (False, 0::nat, node_GetPoint geometry ! iPoint ! 0);
          add_point = (if counter > 1 then False else add_point)
      in if add_point then Some next_Point else None)"

text \<open>
  The test of the second loop over the neighbours, for a neighbour \<open>jPoint\<close>.
\<close>

definition code_qualifies ::
  "'a arith \<Rightarrow> 'a CMesh \<Rightarrow> nat list \<Rightarrow> bool list \<Rightarrow> nat \<Rightarrow> nat \<Rightarrow> bool" where
  "code_qualifies fp geometry linelet check_Point index_Point jPoint \<longleftrightarrow>
     (check_at check_Point jPoint \<and>
      fp_less fp (fp_literal fp (9 / 10))
        (fp_div fp (face_weight fp geometry (linelet ! index_Point) jPoint)
           (max_weight_at fp geometry check_Point (linelet ! index_Point))) \<and>
      node_GetDomain geometry ! jPoint) \<and>
     (index_Point = 0 \<or> (index_Point > 0 \<and> jPoint \<noteq> linelet ! (index_Point - 1)))"

text \<open>
  The inner \<open>do\<close> loop: the linelet grows while a point is added.
\<close>

function grow_linelet ::
  "'a arith \<Rightarrow> 'a CMesh \<Rightarrow> nat list \<times> bool list \<Rightarrow> nat \<Rightarrow> nat list \<times> bool list" where
  "grow_linelet fp geometry (linelet, check_Point) index_Point =
     (case next_linelet_point fp geometry linelet check_Point index_Point of
        Some next_Point \<Rightarrow>
          grow_linelet fp geometry (linelet @ [next_Point], check_Point[next_Point := False])
            (index_Point + 1)
      | None \<Rightarrow> (linelet, check_Point))"
  by pat_completeness auto

text \<open>
  \<open>std::vector::resize(n, d)\<close>.
\<close>

definition resize :: "nat \<Rightarrow> 'b \<Rightarrow> 'b list \<Rightarrow> 'b list" where
  "resize n d xs = take n xs @ replicate (n - length xs) d"

definition is_linelet_marker :: "BC_KIND \<Rightarrow> bool" where
  "is_linelet_marker k \<longleftrightarrow>
     k = HEAT_FLUX \<or> k = ISOTHERMAL \<or> k = EULER_WALL \<or> k = DISPLACEMENT_BOUNDARY"

text \<open>
  The basic linelets: one per vertex of the wall markers, the vertex marked as
  visited.
\<close>

definition seed_linelets ::
  "'a CMesh \<Rightarrow> nat list list \<times> bool list \<times> nat \<Rightarrow> nat list list \<times> bool list \<times> nat" where
  "seed_linelets geometry st =
     fold (\<lambda>iMarker st.
        if is_linelet_marker (Marker_All_KindBC geometry ! iMarker)
        then fold (\<lambda>iVertex (LineletPoint, check_Point, iLinelet).
               let iPoint = vertex_GetNode geometry ! iMarker ! iVertex
               in (LineletPoint[iLinelet := LineletPoint ! iLinelet @ [iPoint]],
                   check_Point[iPoint := False], iLinelet + 1))
               [0..<length (vertex_GetNode geometry ! iMarker)] st
        else st)
       [0..<length (Marker_All_KindBC geometry)] st"

text \<open>
  The outer \<open>do\<close> loop: the linelets grow one after the other, each from its
  first point, on the same vector of marks.
\<close>

definition grow_linelets ::
  "'a arith \<Rightarrow> 'a CMesh \<Rightarrow> nat list \<Rightarrow> nat list list \<times> bool list \<Rightarrow> nat list list \<times> bool list" where
  "grow_linelets fp geometry iLinelets st =
     fold (\<lambda>iLinelet (LineletPoint, check_Point).
        let (linelet, check_Point) =
              grow_linelet fp geometry (LineletPoint ! iLinelet, check_Point) 0
        in (LineletPoint[iLinelet := linelet], check_Point))
       iLinelets st"

text \<open>
  \<open>BuildLineletPreconditioner\<close> up to the sizes it returns. The two global sums
  (\<open>Allreduce\<close>) are a parameter; the mean number of points is only defined when
  there is a linelet. The function gives the updated members of the matrix,
  the number of elements of the longest linelet (the size of the scratch
  arrays) and the mean number of points.
\<close>

definition BuildLineletPreconditioner ::
  "'a arith \<Rightarrow> CSysMatrix \<Rightarrow> 'a CMesh \<Rightarrow> (nat \<Rightarrow> nat) \<Rightarrow> CSysMatrix \<times> nat \<times> nat" where
  "BuildLineletPreconditioner fp A geometry Allreduce =
     (let check_Point = replicate (nPoint A) True;
          LineletBool1 = resize (nPoint A) False (LineletBool A);
          nLinelet1 = fold (\<lambda>iMarker n.
              if is_linelet_marker (Marker_All_KindBC geometry ! iMarker)
              then n + length (vertex_GetNode geometry ! iMarker) else n)
            [0..<length (Marker_All_KindBC geometry)] 0;
          (LineletPoint2, LineletBool2, max_nElem) =
            (if nLinelet1 \<noteq> 0
             then
               (let LineletPoint1 = resize nLinelet1 [] (LineletPoint A);
                    (LineletPoint1, check_Point, iLinelet) =
                       seed_linelets geometry (LineletPoint1, check_Point, 0);
                    (LineletPoint2, check_Point) =
                       grow_linelets fp geometry [0..<nLinelet1] (LineletPoint1, check_Point);
                    LineletBool2 = fold (\<lambda>iLinelet LineletBool.
                        fold (\<lambda>iElem LineletBool.
                          LineletBool[LineletPoint2 ! iLinelet ! iElem := True])
                          [0..<length (LineletPoint2 ! iLinelet)] LineletBool)
                      [0..<nLinelet1] LineletBool1;
                    max_nElem = fold (\<lambda>iLinelet max_nElem.
                        if length (LineletPoint2 ! iLinelet) > max_nElem
                        then length (LineletPoint2 ! iLinelet) else max_nElem)
                      [1..<nLinelet1] (length (LineletPoint2 ! 0))
                in (LineletPoint2, LineletBool2, max_nElem))
             else (LineletPoint A, LineletBool1, 0));
          Local_nPoints = fold (\<lambda>iLinelet n. n + length (LineletPoint2 ! iLinelet))
                            [0..<nLinelet1] 0;
          Global_nPoints = Allreduce Local_nPoints;
          Global_nLineLets = Allreduce nLinelet1;
          MeanPoints = Global_nPoints div Global_nLineLets
      in (A\<lparr>nLinelet := nLinelet1, LineletBool := LineletBool2, LineletPoint := LineletPoint2\<rparr>,
          max_nElem, MeanPoints))"

text \<open>
  The first points of the linelets, in the order in which they are created.
\<close>

definition linelet_seeds :: "'a CMesh \<Rightarrow> nat list" where
  "linelet_seeds geometry =
     concat (map (\<lambda>iMarker. if is_linelet_marker (Marker_All_KindBC geometry ! iMarker)
                             then vertex_GetNode geometry ! iMarker else [])
       [0..<length (Marker_All_KindBC geometry)])"


text \<open>
  At a tip, the index is the last one of the chain and every point of the chain
  is marked visited.
\<close>

definition tip_inv :: "nat list \<Rightarrow> bool list \<Rightarrow> nat \<Rightarrow> bool" where
  "tip_inv linelet check_Point index_Point \<longleftrightarrow>
     index_Point + 1 = length linelet \<and> (\<forall>p\<in>set linelet. \<not> check_at check_Point p)"


section \<open>Inversion of a dense block\<close>

text \<open>
  \<open>MatrixInverse\<close>, native code path. The member array \<open>block\<close> is the buffer
  \<open>B_block\<close>; \<open>matrix\<close> and \<open>inverse\<close> are pointers into the store and may be the
  same pointer. The three phases are the three commented parts of the source:
  copy of the matrix into \<open>block\<close> together with the initialisation of
  \<open>inverse\<close> to the identity, transformation to an upper triangular system, and
  backward substitution. The scalar type is any type with the operations used,
  of which no law is assumed.
\<close>

definition MatrixInverse_copy ::
  "nat \<Rightarrow> ptr \<Rightarrow> ptr \<Rightarrow> ('a::{zero,one}) memory \<Rightarrow> 'a memory" where
  "MatrixInverse_copy nvar matrix inverse' m =
     fold (\<lambda>iVar. fold (\<lambda>jVar m.
        wr (wr m (B_block, 0) (iVar * nvar + jVar) (rd m matrix (iVar * nvar + jVar)))
           inverse' (iVar * nvar + jVar) (if iVar = jVar then 1 else 0))
        [0..<nvar]) [0..<nvar] m"

definition MatrixInverse_eliminate ::
  "nat \<Rightarrow> ptr \<Rightarrow> ('a::{minus,times,inverse}) memory \<Rightarrow> 'a memory" where
  "MatrixInverse_eliminate nvar inverse' m =
     fold (\<lambda>iVar. fold (\<lambda>jVar m.
        let weight = rd m (B_block, 0) (iVar * nvar + jVar) / rd m (B_block, 0) (jVar * nvar + jVar);
            m = fold (\<lambda>kVar m. wr m (B_block, 0) (iVar * nvar + kVar)
                   (rd m (B_block, 0) (iVar * nvar + kVar)
                      - weight * rd m (B_block, 0) (jVar * nvar + kVar)))
                  [jVar..<nvar] m
        in fold (\<lambda>kVar m. wr m inverse' (iVar * nvar + kVar)
                   (rd m inverse' (iVar * nvar + kVar) - weight * rd m inverse' (jVar * nvar + kVar)))
             [0..<jVar + 1] m)
        [0..<iVar]) [1..<nvar] m"

definition MatrixInverse_substitute ::
  "nat \<Rightarrow> ptr \<Rightarrow> ('a::{minus,times,inverse}) memory \<Rightarrow> 'a memory" where
  "MatrixInverse_substitute nvar inverse' m =
     fold (\<lambda>iVar m.
        let m = fold (\<lambda>jVar. fold (\<lambda>kVar m. wr m inverse' (iVar * nvar + kVar)
                   (rd m inverse' (iVar * nvar + kVar)
                      - rd m (B_block, 0) (iVar * nvar + jVar) * rd m inverse' (jVar * nvar + kVar)))
                  [0..<nvar]) [iVar + 1..<nvar] m
        in fold (\<lambda>kVar m. wr m inverse' (iVar * nvar + kVar)
                   (rd m inverse' (iVar * nvar + kVar) / rd m (B_block, 0) (iVar * nvar + iVar)))
             [0..<nvar] m)
        (rev [0..<nvar]) m"

definition MatrixInverse ::
  "nat \<Rightarrow> ptr \<Rightarrow> ptr \<Rightarrow> ('a::{zero,one,minus,times,inverse}) memory \<Rightarrow> 'a memory" where
  "MatrixInverse nvar matrix inverse' m =
     MatrixInverse_substitute nvar inverse'
       (MatrixInverse_eliminate nvar inverse' (MatrixInverse_copy nvar matrix inverse' m))"

text \<open>
  The entry in row \<open>i\<close> and column \<open>k\<close> of the row-major \<open>n \<times> n\<close> block at a pointer, and
  the product of two \<open>n \<times> n\<close> blocks given by their entries.
\<close>

definition entry :: "nat \<Rightarrow> 'a memory \<Rightarrow> ptr \<Rightarrow> nat \<Rightarrow> nat \<Rightarrow> 'a" where
  "entry n m p i k = rd m p (i * n + k)"

definition block_product ::
  "nat \<Rightarrow> (nat \<Rightarrow> nat \<Rightarrow> 'a::field) \<Rightarrow> (nat \<Rightarrow> nat \<Rightarrow> 'a) \<Rightarrow> nat \<Rightarrow> nat \<Rightarrow> 'a" where
  "block_product n X Y i k = (\<Sum>t<n. X i t * Y t k)"

text \<open>
  The state of the elimination when row \<open>i\<close> has been cleared up to column \<open>j\<close>: the
  content \<open>V\<close> of \<open>inverse\<close>, a lower triangular matrix with ones on the diagonal,
  times the matrix \<open>A\<close> to invert is the content \<open>B\<close> of \<open>block\<close>; the rows of \<open>B\<close> before
  row \<open>i\<close> are zero below the diagonal, and row \<open>i\<close> is zero before column \<open>j\<close>.
\<close>

definition elim_inv ::
  "nat \<Rightarrow> (nat \<Rightarrow> nat \<Rightarrow> 'a::field) \<Rightarrow> nat \<Rightarrow> nat \<Rightarrow> (nat \<Rightarrow> nat \<Rightarrow> 'a) \<Rightarrow> (nat \<Rightarrow> nat \<Rightarrow> 'a) \<Rightarrow> bool" where
  "elim_inv n A i j B V \<longleftrightarrow>
     (\<forall>r<n. \<forall>c<n. (\<Sum>t<n. V r t * A t c) = B r c) \<and>
     (\<forall>r<n. \<forall>c<n. r < c \<longrightarrow> V r c = 0) \<and>
     (\<forall>r<n. V r r = 1) \<and>
     (\<forall>r<n. \<forall>c<n. r < i \<longrightarrow> c < r \<longrightarrow> B r c = 0) \<and>
     (\<forall>c<j. B i c = 0)"

text \<open>
  The state of the backward substitution when the rows from \<open>i\<close> on are solved:
  these rows of the content \<open>X\<close> of \<open>inverse\<close> satisfy \<open>U X = L\<close> for the upper
  triangular \<open>U\<close> and the right-hand sides \<open>L\<close> left by the elimination, the rows
  before \<open>i\<close> are still those of \<open>L\<close>.
\<close>

definition subst_inv ::
  "nat \<Rightarrow> (nat \<Rightarrow> nat \<Rightarrow> 'a::field) \<Rightarrow> (nat \<Rightarrow> nat \<Rightarrow> 'a) \<Rightarrow> nat \<Rightarrow> (nat \<Rightarrow> nat \<Rightarrow> 'a) \<Rightarrow> bool" where
  "subst_inv n U L i X \<longleftrightarrow>
     (\<forall>r<n. \<forall>c<n. (r < i \<longrightarrow> X r c = L r c) \<and>
                    (i \<le> r \<longrightarrow> (\<Sum>t<n. U r t * X t c) = L r c))"

definition agree :: "ptr \<Rightarrow> 'a memory \<Rightarrow> 'a memory \<Rightarrow> bool" where
  "agree p m m' \<longleftrightarrow> m B_block = m' B_block \<and> m (fst p) = m' (fst p)"

section \<open>Concrete systems\<close>

text \<open>
  The value a run leaves in one buffer, or the error that ended it.
\<close>

definition buffer_after :: "buf \<Rightarrow> error + 'a state \<Rightarrow> error + 'a list" where
  "buffer_after b r = (case r of Inl e \<Rightarrow> Inl e | Inr s \<Rightarrow> Inr (mem s b))"

definition calls_after :: "error + 'a state \<Rightarrow> error + comm_call list" where
  "calls_after r = (case r of Inl e \<Rightarrow> Inl e | Inr s \<Rightarrow> Inr (comm_log s))"

text \<open>
  A one-point system without neighbours: a single \<open>1 \<times> 1\<close> block with entry 2. The
  two vectors of the caller have two blocks each, one more than the matrix has
  points.
\<close>

definition ex1_A :: CSysMatrix where
  "ex1_A = \<lparr>nVar = 1, nEqn = 1, nPoint = 1, nPointDomain = 1, nnz = 1,
     row_ptr = [0, 1], dia_ptr = [0], col_ind = [0],
     nnz_ilu = 1, ilu_fill_in = 0, row_ptr_ilu = [0, 1], dia_ptr_ilu = [0], col_ind_ilu = [0],
     nLinelet = 0, LineletBool = [], LineletPoint = []\<rparr>"

definition ex1_geometry :: CGeometry where
  "ex1_geometry = \<lparr>nP2PSend = 0, nP2PRecv = 0, nPoint_P2PSend = [0], nPoint_P2PRecv = [0],
     Local_Point_P2PSend = [], Local_Point_P2PRecv = [],
     P2PSend2Neighbor = (\<lambda>r. 0), P2PRecv2Neighbor = (\<lambda>r. 0)\<rparr>"

definition ex1_state :: "rat state" where
  "ex1_state = \<lparr>mem = (\<lambda>b. [])(B_matrix := [2], B_vector 0 := [3, 7], B_vector 1 := [9, 9]),
     countPerPoint = 0, comm_log = []\<rparr>"

definition ex1_vec :: CSysVector where
  "ex1_vec = \<lparr>vec_val = B_vector 0, GetNVar = 1, GetNBlk = 2\<rparr>"

definition ex1_prod :: CSysVector where
  "ex1_prod = \<lparr>vec_val = B_vector 1, GetNVar = 1, GetNBlk = 2\<rparr>"

definition ex1_env :: "rat mpi_env" where
  "ex1_env = \<lparr>incoming = [], arrival = []\<rparr>"

text \<open>
  A partition with two owned points (0 and 1), two ghost points (2 and 3) and
  two neighbours, of ranks 1 and 2, with blocks of size 2. Ghost 2 mirrors a
  point of rank 1, ghost 3 a point of rank 2; the owned points 0 and 1 are sent to
  rank 1, and point 1 also to rank 2.
\<close>

definition ex2_A :: CSysMatrix where
  "ex2_A = \<lparr>nVar = 2, nEqn = 2, nPoint = 4, nPointDomain = 2, nnz = 8,
     row_ptr = [0, 3, 6, 7, 8], dia_ptr = [0, 4, 6, 7], col_ind = [0, 1, 2, 0, 1, 3, 2, 3],
     nnz_ilu = 8, ilu_fill_in = 0,
     row_ptr_ilu = [0, 3, 6, 7, 8], dia_ptr_ilu = [0, 4, 6, 7],
     col_ind_ilu = [0, 1, 2, 0, 1, 3, 2, 3],
     nLinelet = 0, LineletBool = [], LineletPoint = []\<rparr>"

definition ex2_geometry :: CGeometry where
  "ex2_geometry = \<lparr>nP2PSend = 2, nP2PRecv = 2,
     nPoint_P2PSend = [0, 2, 3], nPoint_P2PRecv = [0, 1, 2],
     Local_Point_P2PSend = [0, 1, 1], Local_Point_P2PRecv = [2, 3],
     P2PSend2Neighbor = (\<lambda>r. if r = 2 then 1 else 0),
     P2PRecv2Neighbor = (\<lambda>r. if r = 2 then 1 else 0)\<rparr>"

definition ex2_matrix :: "rat list" where
  "ex2_matrix = [2, 1, 0, 3,   1, 0, 0, 1,   0, 1, 1, 0,
                 1, 1, 0, 1,   4, 0, 1, 2,   1, 2, 3, 4,
                 1, 0, 0, 1,   1, 0, 0, 1]"

definition ex2_state :: "rat state" where
  "ex2_state = \<lparr>mem = (\<lambda>b. [])(B_matrix := ex2_matrix,
       B_vector 0 := [1, 2, 3, 4, 5, 6, 7, 8],
       B_vector 1 := [9, 9, 9, 9, 9, 9, 9, 9],
       B_bufD_P2PSend := [0, 0, 0, 0, 0, 0], B_bufD_P2PRecv := [0, 0, 0, 0]),
     countPerPoint = 2, comm_log = []\<rparr>"

definition ex2_vec :: CSysVector where
  "ex2_vec = \<lparr>vec_val = B_vector 0, GetNVar = 2, GetNBlk = 4\<rparr>"

definition ex2_prod :: CSysVector where
  "ex2_prod = \<lparr>vec_val = B_vector 1, GetNVar = 2, GetNBlk = 4\<rparr>"

text \<open>
  Two deliveries of the same data, the messages arriving in either order. In
  forward mode the buffer holds two points, in reverse mode three.
\<close>

definition ex2_env :: "rat mpi_env" where
  "ex2_env = \<lparr>incoming = [10, 20, 30, 40], arrival = [1, 2]\<rparr>"




text \<open>
  The store of the two-neighbour partition with a third vector, the values to
  enforce at a node.
\<close>

definition ex4_mem :: "rat memory" where
  "ex4_mem = (mem ex2_state)(B_vector 2 := [5, 7])"


definition ex3_A :: CSysMatrix where
  "ex3_A = \<lparr>nVar = 2, nEqn = 2, nPoint = 1, nPointDomain = 1, nnz = 1,
     row_ptr = [0, 1], dia_ptr = [0], col_ind = [0],
     nnz_ilu = 1, ilu_fill_in = 0, row_ptr_ilu = [0, 1], dia_ptr_ilu = [0], col_ind_ilu = [0],
     nLinelet = 0, LineletBool = [], LineletPoint = []\<rparr>"

definition ex3_geometry :: CGeometry where
  "ex3_geometry = \<lparr>nP2PSend = 1, nP2PRecv = 0, nPoint_P2PSend = [0, 1], nPoint_P2PRecv = [0],
     Local_Point_P2PSend = [0], Local_Point_P2PRecv = [],
     P2PSend2Neighbor = (\<lambda>r. 0), P2PRecv2Neighbor = (\<lambda>r. 0)\<rparr>"

definition ex3_state :: "rat state" where
  "ex3_state = \<lparr>mem = (\<lambda>b. [])(B_matrix := [2, 1, 0, 5], B_vector 0 := [3, 4],
       B_vector 1 := [7, 7], B_bufD_P2PSend := [0, 0], B_bufD_P2PRecv := []),
     countPerPoint = 2, comm_log = []\<rparr>"

definition ex3_vec :: CSysVector where
  "ex3_vec = \<lparr>vec_val = B_vector 0, GetNVar = 2, GetNBlk = 1\<rparr>"

definition ex3_prod :: CSysVector where
  "ex3_prod = \<lparr>vec_val = B_vector 1, GetNVar = 2, GetNBlk = 1\<rparr>"


definition ex7_mem :: "rat memory" where
  "ex7_mem = (\<lambda>b. [])(B_block := [0, 0, 0, 0], B_LineletInvDiag := [9, 9, 9, 9, 2, 1, 1, 1])"

section \<open>Auxiliary lemmas\<close>

lemma fold_on_buffer:
  assumes step: "\<And>i m. I m \<Longrightarrow> f i m = m(x := g i (m x))"
    and inv: "\<And>m v. I m \<Longrightarrow> I (m(x := v))"
    and "I m"
  shows "fold f is m = m(x := fold g is (m x))"
  using \<open>I m\<close>
proof (induction "is" arbitrary: m)
  case Nil
  then show ?case by simp
next
  case (Cons i "is")
  have "I (m(x := g i (m x)))" using Cons.prems inv by blast
  from Cons.IH[OF this]
  have "fold f is (m(x := g i (m x))) = m(x := fold g is (g i (m x)))"
    by (simp only: fun_upd_same fun_upd_upd)
  then show ?case
    by (simp only: fold_simps step[OF Cons.prems])
qed

lemma fold_on_buffer_mem:
  assumes step: "\<And>i m. i \<in> set is \<Longrightarrow> I m \<Longrightarrow> f i m = m(x := g i (m x))"
    and inv: "\<And>m v. I m \<Longrightarrow> I (m(x := v))"
    and "I m"
  shows "fold f is m = m(x := fold g is (m x))"
  using \<open>I m\<close> step
proof (induction "is" arbitrary: m)
  case Nil
  then show ?case by simp
next
  case (Cons i "is")
  have I': "I (m(x := g i (m x)))" using Cons.prems(1) inv by blast
  have st: "f j m' = m'(x := g j (m' x))" if "j \<in> set is" "I m'" for j m'
    by (rule Cons.prems(2)) (use that in simp_all)
  from Cons.IH[OF I' st]
  have "fold f is (m(x := g i (m x))) = m(x := fold g is (g i (m x)))"
    by (simp only: fun_upd_same fun_upd_upd)
  moreover have "f i m = m(x := g i (m x))"
    by (rule Cons.prems(2)) (use Cons.prems(1) in simp_all)
  ultimately show ?case
    by (simp only: fold_simps)
qed

lemma fold_concat_map: "fold f (concat (map h is)) = fold (\<lambda>i. fold f (h i)) is"
  by (induction "is") simp_all

lemma ulong_sub_eq:
  assumes "b \<le> a" "a < 2 ^ 64"
  shows "ulong_sub a b = a - b"
proof -
  have "(word_of_nat a - word_of_nat b :: 64 word) = word_of_nat (a - b)"
    using assms(1) by simp
  moreover have "a - b < 2 ^ 64" using assms by simp
  ultimately show ?thesis
    by (simp add: ulong_sub_def unat_of_nat take_bit_nat_eq_self)
qed

lemma unpack_message_eq:
  assumes "x \<noteq> b" "NP ! j \<le> NP ! (j + 1)" "NP ! (j + 1) < 2 ^ 64"
  shows "unpack_message acc nv cpp NP LP b x j m =
         m(x := fold (put acc (m b)) (msg_pairs nv cpp NP LP j) (m x))"
proof -
  define B where "B = m b"
  have inner: "\<And>m' p s. m' b = B \<Longrightarrow>
      fold (\<lambda>iVar m. wr m (x, 0) (p + iVar)
             (if acc then rd m (x, 0) (p + iVar) + rd m (b, 0) (s + iVar)
              else rd m (b, 0) (s + iVar))) [0..<nv] m'
      = m'(x := fold (\<lambda>v. put acc B (p + v, s + v)) [0..<nv] (m' x))"
    by (rule fold_on_buffer[where I = "\<lambda>m. m b = B"])
       (use assms(1) in \<open>auto simp: wr_def rd_def put_def\<close>)
  have "unpack_message acc nv cpp NP LP b x j m =
        m(x := fold (\<lambda>i. fold (\<lambda>v. put acc B ((LP ! (NP ! j + i)) * nv + v, (NP ! j + i) * cpp + v)) [0..<nv])
                 [0..<NP ! (j + 1) - NP ! j] (m x))"
    unfolding unpack_message_def Let_def ulong_sub_eq[OF assms(2,3)]
    by (rule fold_on_buffer[where I = "\<lambda>m. m b = B"])
       (use assms(1) in \<open>auto simp: inner B_def\<close>)
  also have "fold (\<lambda>i. fold (\<lambda>v. put acc B ((LP ! (NP ! j + i)) * nv + v, (NP ! j + i) * cpp + v)) [0..<nv])
                 [0..<NP ! (j + 1) - NP ! j] (m x)
     = fold (put acc B) (msg_pairs nv cpp NP LP j) (m x)"
    by (simp add: msg_pairs_def fold_concat_map fold_map comp_def)
  finally show ?thesis by (simp only: B_def)
qed

lemma length_put [simp]: "length (put acc B ds xs) = length xs"
  by (simp add: put_def)

lemma length_fold_put [simp]: "length (fold (put acc B) ps xs) = length xs"
  by (induction ps arbitrary: xs) simp_all

lemma fold_put_other:
  "q \<notin> fst ` set ps \<Longrightarrow> fold (put acc B) ps xs ! q = xs ! q"
  by (induction ps arbitrary: xs) (auto simp: put_def)

lemma fold_put_target:
  "filter (\<lambda>p. fst p = d) ps = [(d, s)] \<Longrightarrow> d < length xs \<Longrightarrow>
   fold (put acc B) ps xs ! d = (if acc then xs ! d + B ! s else B ! s)"
proof (induction ps arbitrary: xs)
  case Nil
  then show ?case by simp
next
  case (Cons p ps)
  show ?case
  proof (cases "fst p = d")
    case True
    with Cons.prems have p: "p = (d, s)" and rest: "filter (\<lambda>p. fst p = d) ps = []" by auto
    from rest have "d \<notin> fst ` set ps" by (auto simp: filter_empty_conv)
    then show ?thesis using Cons.prems(2) p
      by (simp add: fold_put_other) (simp add: put_def)
  next
    case False
    with Cons.prems have "filter (\<lambda>p. fst p = d) ps = [(d, s)]" by simp
    from Cons.IH[OF this, of "put acc B p xs"] Cons.prems(2) False
    show ?thesis by (simp add: put_def)
  qed
qed




lemma map_nth_upt_length: "map (\<lambda>i. f (xs ! i)) [0..<length xs] = map f xs"
  by (rule nth_equalityI) simp_all

lemma fold_unpack_messages:
  assumes "x \<noteq> b" "length arr = n"
    and offs: "\<forall>src\<in>set arr. NP ! R src \<le> NP ! (R src + 1) \<and> NP ! (R src + 1) < 2 ^ 64"
  shows "fold (\<lambda>iMessage. unpack_message acc nv cpp NP LP b x (R (arr ! iMessage)))
           [0..<n] (m0(b := B))
       = (m0(b := B))(x := fold (put acc B) (all_pairs nv cpp NP LP R arr) (m0 x))"
proof -
  have "fold (\<lambda>iMessage. unpack_message acc nv cpp NP LP b x (R (arr ! iMessage)))
           [0..<n] (m0(b := B))
      = (m0(b := B))(x := fold (\<lambda>i. fold (put acc B) (msg_pairs nv cpp NP LP (R (arr ! i)))) [0..<n]
            ((m0(b := B)) x))"
  proof (rule fold_on_buffer_mem[where I = "\<lambda>m. m b = B"])
    fix i and m :: "buf \<Rightarrow> 'a list"
    assume "i \<in> set [0..<n]" and mb: "m b = B"
    then have "arr ! i \<in> set arr" using assms(2) by simp
    with offs have o: "NP ! R (arr ! i) \<le> NP ! (R (arr ! i) + 1)" "NP ! (R (arr ! i) + 1) < 2 ^ 64"
      by auto
    show "unpack_message acc nv cpp NP LP b x (R (arr ! i)) m =
          m(x := fold (put acc B) (msg_pairs nv cpp NP LP (R (arr ! i))) (m x))"
      unfolding mb[symmetric] by (rule unpack_message_eq[OF assms(1) o])
  qed (use assms(1) in auto)
  moreover have "fold (\<lambda>i. fold (put acc B) (msg_pairs nv cpp NP LP (R (arr ! i)))) [0..<n] xs
      = fold (put acc B) (all_pairs nv cpp NP LP R arr) xs" for xs
  proof -
    have "map (\<lambda>i. msg_pairs nv cpp NP LP (R (arr ! i))) [0..<length arr]
          = map (\<lambda>src. msg_pairs nv cpp NP LP (R src)) arr"
      by (rule map_nth_upt_length)
    then have "all_pairs nv cpp NP LP R arr
          = concat (map (\<lambda>i. msg_pairs nv cpp NP LP (R (arr ! i))) [0..<n])"
      using assms by (simp add: all_pairs_def)
    then show ?thesis by (simp only: fold_concat_map)
  qed
  ultimately show ?thesis using assms by simp
qed



lemma block_index_inj:
  assumes "v < n" "w < n" "a * n + v = b * n + (w::nat)"
  shows "a = b \<and> v = w"
proof -
  have "(a * n + v) div n = a" "(b * n + w) div n = b" using assms(1,2) by simp_all
  then have "a = b" by (metis assms(3))
  then show ?thesis using assms(3) by simp
qed

lemma div_in_block:
  assumes "a * n \<le> y" "y < n + a * n"
  shows "y div n = (a::nat)"
proof -
  obtain v where v: "y = a * n + v" using assms(1) by (metis le_add_diff_inverse)
  with assms(2) have "v < n" by simp
  with v show ?thesis by simp
qed

lemma distinct_blocks:
  "distinct (map P is) \<Longrightarrow>
   distinct (concat (map (\<lambda>i. map (\<lambda>v. P i * nv + v) [0..<nv]) is))"
proof (induction "is")
  case Nil
  then show ?case by simp
next
  case (Cons i "is")
  have d1: "distinct (map (\<lambda>v. P i * nv + v) [0..<nv])"
    by (simp add: distinct_map inj_on_def)
  have d3: "distinct (concat (map (\<lambda>i. map (\<lambda>v. P i * nv + v) [0..<nv]) is))"
    using Cons by simp
  have d4: "set (map (\<lambda>v. P i * nv + v) [0..<nv]) \<inter>
            set (concat (map (\<lambda>i. map (\<lambda>v. P i * nv + v) [0..<nv]) is)) = {}"
  proof (rule ccontr)
    assume "\<not> ?thesis"
    then obtain y where "y \<in> set (map (\<lambda>v. P i * nv + v) [0..<nv])"
      "y \<in> set (concat (map (\<lambda>i. map (\<lambda>v. P i * nv + v) [0..<nv]) is))" by blast
    then obtain i' where "i' \<in> set is" "P i * nv \<le> y" "y < nv + P i * nv"
       "P i' * nv \<le> y" "y < nv + P i' * nv"
      by auto
    then have "P i = P i'" using div_in_block[of "P i" nv y] div_in_block[of "P i'" nv y] by simp
    with \<open>i' \<in> set is\<close> Cons.prems show False by auto
  qed
  have "concat (map (\<lambda>i. map (\<lambda>v. P i * nv + v) [0..<nv]) (i # is)) =
        map (\<lambda>v. P i * nv + v) [0..<nv] @ concat (map (\<lambda>i. map (\<lambda>v. P i * nv + v) [0..<nv]) is)"
    by simp
  then show ?case using d1 d3 d4 by (simp only: distinct_append)
qed

lemma map_fst_msg_pairs:
  "map fst (msg_pairs nv cpp NP LP j) =
   concat (map (\<lambda>i. map (\<lambda>v. LP ! (NP ! j + i) * nv + v) [0..<nv]) [0..<NP ! (j + 1) - NP ! j])"
  by (simp add: msg_pairs_def map_concat comp_def)

lemma distinct_msg_pairs:
  assumes "distinct (map (\<lambda>i. LP ! (NP ! j + i)) [0..<NP ! (j + 1) - NP ! j])"
  shows "distinct (map fst (msg_pairs nv cpp NP LP j))"
  unfolding map_fst_msg_pairs using distinct_blocks[OF assms] .

lemma distinct_filter_single:
  "distinct (map fst ps) \<Longrightarrow> (d, s) \<in> set ps \<Longrightarrow> filter (\<lambda>p. fst p = d) ps = [(d, s)]"
proof (induction ps)
  case Nil
  then show ?case by simp
next
  case (Cons p ps)
  show ?case
  proof (cases "p = (d, s)")
    case True
    with Cons.prems(1) have "d \<notin> fst ` set ps" by auto
    then have "filter (\<lambda>p. fst p = d) ps = []" by (auto simp: filter_empty_conv)
    with True show ?thesis by simp
  next
    case False
    with Cons.prems have in_ps: "(d, s) \<in> set ps" by auto
    then have "d \<in> fst ` set ps" by force
    then have "fst p \<noteq> d" using Cons.prems(1) by auto
    then show ?thesis using Cons.IH in_ps Cons.prems(1) by simp
  qed
qed

lemma msg_pairs_mem:
  "i < NP ! (j + 1) - NP ! j \<Longrightarrow> v < nv \<Longrightarrow>
   (LP ! (NP ! j + i) * nv + v, (NP ! j + i) * cpp + v) \<in> set (msg_pairs nv cpp NP LP j)"
  apply (simp add: msg_pairs_def)
  apply (rule bexI[of _ i])
   apply (rule image_eqI[of _ _ v])
    apply simp_all
  done

lemma msg_pairs_set:
  "set (msg_pairs nv cpp NP LP j) =
   (\<lambda>(i, v). (LP ! (NP ! j + i) * nv + v, (NP ! j + i) * cpp + v)) `
     ({0..<NP ! (j + 1) - NP ! j} \<times> {0..<nv})"
  unfolding msg_pairs_def set_concat set_map set_upt by (auto simp: image_iff)

lemma all_pairs_mem:
  assumes "(d, s) \<in> set (all_pairs nv cpp NP LP R srcs)"
  shows "\<exists>src\<in>set srcs. \<exists>k v. k < NP ! (R src + 1) \<and> v < nv \<and> d = LP ! k * nv + v \<and> s = k * cpp + v"
proof -
  from assms obtain src where src: "src \<in> set srcs" "(d, s) \<in> set (msg_pairs nv cpp NP LP (R src))"
    unfolding all_pairs_def set_concat set_map by blast
  from src(2) obtain i v where "i < NP ! (R src + 1) - NP ! (R src)" "v < nv"
    "d = LP ! (NP ! (R src) + i) * nv + v" "s = (NP ! (R src) + i) * cpp + v"
    unfolding msg_pairs_set by auto
  with src(1) show ?thesis
    by (intro bexI[of _ src] exI[of _ "NP ! (R src) + i"] exI[of _ v]) auto
qed

lemma inj_on_fst_all_pairs:
  assumes "distinct LP" and "\<forall>src\<in>set srcs. NP ! (R src + 1) \<le> length LP"
  shows "inj_on fst (set (all_pairs nv cpp NP LP R srcs))"
proof (rule inj_onI)
  fix p q assume p: "p \<in> set (all_pairs nv cpp NP LP R srcs)"
    and q: "q \<in> set (all_pairs nv cpp NP LP R srcs)" and eq: "fst p = fst q"
  have ex: "\<exists>k v. k < length LP \<and> v < nv \<and> fst r = LP ! k * nv + v \<and> snd r = k * cpp + v"
    if "r \<in> set (all_pairs nv cpp NP LP R srcs)" for r
  proof -
    from that all_pairs_mem[of "fst r" "snd r" nv cpp NP LP R srcs]
    obtain src k v where "src \<in> set srcs" "k < NP ! (R src + 1)" "v < nv"
      "fst r = LP ! k * nv + v" "snd r = k * cpp + v" by auto
    moreover from this assms(2) have "k < length LP" by fastforce
    ultimately show ?thesis by blast
  qed
  from ex[OF p]
  obtain k v where k: "k < length LP" "v < nv" "fst p = LP ! k * nv + v" "snd p = k * cpp + v"
    by blast
  from ex[OF q]
  obtain k' v' where k': "k' < length LP" "v' < nv" "fst q = LP ! k' * nv + v'" "snd q = k' * cpp + v'"
    by blast
  from block_index_inj[of v nv v' "LP ! k" "LP ! k'"] k k' eq
  have "LP ! k = LP ! k'" "v = v'" by auto
  with assms(1) k(1) k'(1) have "k = k'" by (simp add: nth_eq_iff_index_eq)
  with \<open>v = v'\<close> k k' eq show "p = q" by (simp add: prod_eq_iff)
qed


lemma CompleteComms_SOLUTION_MATRIX:
  assumes "x \<noteq> B_bufD_P2PRecv" "length (arrival env) = nP2PRecv geometry"
    and "\<forall>src\<in>set (arrival env).
           nPoint_P2PRecv geometry ! P2PRecv2Neighbor geometry src
             \<le> nPoint_P2PRecv geometry ! (P2PRecv2Neighbor geometry src + 1) \<and>
           nPoint_P2PRecv geometry ! (P2PRecv2Neighbor geometry src + 1) < 2 ^ 64"
  shows "CompleteComms A geometry x SOLUTION_MATRIX env s =
     Inr (if nP2PRecv geometry > 0
          then s\<lparr>comm_log := comm_log s @ [Complete SOLUTION_MATRIX],
                 mem := ((mem s)(B_bufD_P2PRecv := incoming env))
                   (x := fold (put False (incoming env))
                      (all_pairs (nVar A) (countPerPoint s) (nPoint_P2PRecv geometry)
                         (Local_Point_P2PRecv geometry) (P2PRecv2Neighbor geometry) (arrival env))
                      (mem s x))\<rparr>
          else s\<lparr>comm_log := comm_log s @ [Complete SOLUTION_MATRIX]\<rparr>)"
  using assms by (simp add: CompleteComms_def fold_unpack_messages)


lemma MatrixVectorProductAdd_eq:
  assumes "bp \<noteq> bm" "bp \<noteq> bv"
  shows "MatrixVectorProductAdd nv (bm, mo) (bv, vo) (bp, po) m =
         m(bp := block_mac nv (m bm) mo (m bv) vo po (m bp))"
proof -
  define M V where "M = m bm" and "V = m bv"
  have inner: "\<And>m' iVar. m' bm = M \<and> m' bv = V \<Longrightarrow>
      fold (\<lambda>jVar m. wr m (bp, po) iVar
              (rd m (bp, po) iVar + rd m (bm, mo) (iVar * nv + jVar) * rd m (bv, vo) jVar))
        [0..<nv] m'
      = m'(bp := fold (\<lambda>jVar P.
             P[po + iVar := P ! (po + iVar) + M ! (mo + (iVar * nv + jVar)) * V ! (vo + jVar)])
             [0..<nv] (m' bp))"
    by (rule fold_on_buffer[where I = "\<lambda>m. m bm = M \<and> m bv = V"])
       (use assms in \<open>auto simp: wr_def rd_def\<close>)
  have "MatrixVectorProductAdd nv (bm, mo) (bv, vo) (bp, po) m =
        m(bp := fold (\<lambda>iVar. fold (\<lambda>jVar P.
             P[po + iVar := P ! (po + iVar) + M ! (mo + (iVar * nv + jVar)) * V ! (vo + jVar)])
             [0..<nv]) [0..<nv] (m bp))"
    unfolding MatrixVectorProductAdd_def
    by (rule fold_on_buffer[where I = "\<lambda>m. m bm = M \<and> m bv = V"])
       (use assms in \<open>auto simp: inner M_def V_def\<close>)
  then show ?thesis by (simp only: block_mac_def M_def V_def)
qed

lemma fold_add_at:
  "fold (\<lambda>j P. P[d := P ! d + c j]) [0..<n] P = P[d := P ! d + (\<Sum>j<n. c j)]"
proof (induction n)
  case 0
  then show ?case by simp
next
  case (Suc n)
  show ?case
  proof (cases "d < length P")
    case True
    then show ?thesis using Suc by (simp add: add.assoc)
  next
    case False
    then show ?thesis using Suc by (simp add: list_update_beyond)
  qed
qed

lemma length_fold_update:
  "length (fold (\<lambda>i P. P[d i := h i P]) is P) = length P"
  by (induction "is" arbitrary: P) simp_all

lemma nth_fold_block:
  assumes "k < length P"
  shows "fold (\<lambda>i P. P[po + i := P ! (po + i) + S i]) [0..<n] P ! k =
         (if po \<le> k \<and> k < po + n then P ! k + S (k - po) else P ! k)"
proof (induction n)
  case 0
  then show ?case by auto
next
  case (Suc n)
  have len: "length (fold (\<lambda>i P. P[po + i := P ! (po + i) + S i]) [0..<n] P) = length P"
    by (rule length_fold_update)
  show ?case
  proof (cases "k = po + n")
    case True
    then show ?thesis using Suc assms len by simp
  next
    case False
    then show ?thesis using Suc assms len by (auto simp: nth_list_update)
  qed
qed

lemma length_block_mac [simp]: "length (block_mac nv M mo V vo po P) = length P"
proof -
  have "\<And>P iVar. length (fold (\<lambda>jVar P.
        P[po + iVar := P ! (po + iVar) + M ! (mo + (iVar * nv + jVar)) * V ! (vo + jVar)])
        [0..<nv] P) = length P"
    by (rule length_fold_update)
  then have "\<And>is P. length (fold (\<lambda>iVar. fold (\<lambda>jVar P.
        P[po + iVar := P ! (po + iVar) + M ! (mo + (iVar * nv + jVar)) * V ! (vo + jVar)])
        [0..<nv]) is P) = length P"
    subgoal for "is" P by (induction "is" arbitrary: P) simp_all
    done
  then show ?thesis by (simp add: block_mac_def)
qed

lemma nth_block_mac:
  assumes "k < length P"
  shows "block_mac nv M mo V vo po P ! k =
         (if po \<le> k \<and> k < po + nv
          then P ! k + (\<Sum>jVar<nv. M ! (mo + ((k - po) * nv + jVar)) * V ! (vo + jVar))
          else P ! k)"
  unfolding block_mac_def fold_add_at
  using nth_fold_block[OF assms, of po "\<lambda>i. \<Sum>jVar<nv. M ! (mo + (i * nv + jVar)) * V ! (vo + jVar)" nv]
  by simp

lemma nth_fold_accumulate:
  assumes step: "\<And>i P. k < length P \<Longrightarrow> G i P ! k = (if In then P ! k + c i else P ! k)"
    and len: "\<And>i P. length (G i P) = length P"
    and "k < length P"
  shows "fold G is P ! k = (if In then P ! k + sum_list (map c is) else P ! k)"
  using \<open>k < length P\<close>
proof (induction "is" arbitrary: P)
  case Nil
  then show ?case by simp
next
  case (Cons i "is")
  have "k < length (G i P)" using Cons.prems len by simp
  from Cons.IH[OF this] step[OF Cons.prems, of i] show ?case by (simp add: add.assoc)
qed

lemma length_fold_same:
  assumes "\<And>i P. length (G i P) = length P"
  shows "length (fold G is P) = length P"
  by (induction "is" arbitrary: P) (simp_all add: assms)

lemma nth_fold_row:
  assumes "k < length P"
  shows "fold (\<lambda>index. block_mac nv M (index * nv * nv) V (ci ! index * nv) po) [a..<b] P ! k =
         (if po \<le> k \<and> k < po + nv
          then P ! k + (\<Sum>index\<in>{a..<b}. \<Sum>jVar<nv.
                  M ! (index * nv * nv + ((k - po) * nv + jVar)) * V ! (ci ! index * nv + jVar))
          else P ! k)"
proof -
  have "fold (\<lambda>index. block_mac nv M (index * nv * nv) V (ci ! index * nv) po) [a..<b] P ! k =
        (if po \<le> k \<and> k < po + nv
         then P ! k + sum_list (map (\<lambda>index. \<Sum>jVar<nv.
                  M ! (index * nv * nv + ((k - po) * nv + jVar)) * V ! (ci ! index * nv + jVar)) [a..<b])
         else P ! k)"
    by (rule nth_fold_accumulate) (simp_all add: nth_block_mac assms)
  then show ?thesis by (simp add: interv_sum_list_conv_sum_set_nat)
qed

lemma nth_fold_rows:
  assumes "k < length P"
  shows "fold (\<lambda>row_i. fold (\<lambda>index. block_mac nv M (index * nv * nv) V (ci ! index * nv) (row_i * nv))
                 [rp ! row_i..<rp ! (row_i + 1)]) [0..<n] P ! k =
         (if k < n * nv then P ! k + row_sum nv rp ci M V (k div nv) (k mod nv) else P ! k)"
proof (induction n)
  case 0
  then show ?case by simp
next
  case (Suc n)
  let ?H = "\<lambda>row_i. fold (\<lambda>index. block_mac nv M (index * nv * nv) V (ci ! index * nv) (row_i * nv))
                 [rp ! row_i..<rp ! (row_i + 1)]"
  have len: "length (fold ?H [0..<n] P) = length P"
    by (intro length_fold_same) simp
  have k': "k < length (fold ?H [0..<n] P)" using assms len by simp
  show ?case
  proof (cases "n * nv \<le> k \<and> k < n * nv + nv")
    case True
    then have "k div nv = n" "k mod nv = k - n * nv"
      using div_in_block[of n nv k] by (auto simp: add.commute modulo_nat_def mult.commute)
    then show ?thesis using True Suc nth_fold_row[OF k', of nv M V ci "n * nv"]
      by (simp add: row_sum_def)
  next
    case False
    then show ?thesis using Suc nth_fold_row[OF k', of nv M V ci "n * nv"]
      by (auto simp: not_le)
  qed
qed

lemma MatrixVectorProduct_rows_eq:
  assumes "bp \<noteq> B_matrix" "bp \<noteq> bv"
  shows "fold (\<lambda>row_i m.
            let prod_begin = row_i * nv
            in fold (\<lambda>index m.
                 let vec_begin = (ci ! index) * nv;
                     mat_begin = index * nv * nv
                 in MatrixVectorProductAdd nv (B_matrix, mat_begin) (bv, vec_begin) (bp, prod_begin) m)
                 [rp ! row_i ..< rp ! (row_i + 1)] m)
            [0..<n] m
       = m(bp := fold (\<lambda>row_i. fold (\<lambda>index.
                 block_mac nv (m B_matrix) (index * nv * nv) (m bv) (ci ! index * nv) (row_i * nv))
                 [rp ! row_i..<rp ! (row_i + 1)]) [0..<n] (m bp))"
proof -
  define M V where "M = m B_matrix" and "V = m bv"
  have inner: "\<And>m' row_i. m' B_matrix = M \<and> m' bv = V \<Longrightarrow>
      fold (\<lambda>index m. MatrixVectorProductAdd nv (B_matrix, index * nv * nv) (bv, (ci ! index) * nv)
              (bp, row_i * nv) m) [rp ! row_i ..< rp ! (row_i + 1)] m'
      = m'(bp := fold (\<lambda>index. block_mac nv M (index * nv * nv) V (ci ! index * nv) (row_i * nv))
                 [rp ! row_i..<rp ! (row_i + 1)] (m' bp))"
    by (rule fold_on_buffer[where I = "\<lambda>m. m B_matrix = M \<and> m bv = V"])
       (use assms in \<open>auto simp: MatrixVectorProductAdd_eq\<close>)
  show ?thesis
    unfolding Let_def M_def[symmetric] V_def[symmetric]
  proof (rule fold_on_buffer[where I = "\<lambda>m. m B_matrix = M \<and> m bv = V"])
    show "m B_matrix = M \<and> m bv = V" by (simp add: M_def V_def)
    show "\<And>m v. m B_matrix = M \<and> m bv = V \<Longrightarrow> (m(bp := v)) B_matrix = M \<and> (m(bp := v)) bv = V"
      using assms by simp
  qed (rule inner)
qed

lemma fold_frame:
  assumes "\<And>i m. f i m b = m b"
  shows "fold f is m b = m b"
  by (induction "is" arbitrary: m) (simp_all add: assms)

lemma pack_message_frame:
  assumes "b \<noteq> bufDSend"
  shows "pack_message nv cpp NP LP bufDSend x i m b = m b"
  unfolding pack_message_def Let_def
  by (intro fold_frame) (use assms in \<open>simp add: wr_def\<close>)

lemma fold_pack_message_frame:
  assumes "b \<noteq> bufDSend"
  shows "fold (pack_message nv cpp NP LP bufDSend x) is m b = m b"
  by (rule fold_frame) (rule pack_message_frame[OF assms])

lemma InitiateComms_SOLUTION_MATRIX:
  "\<exists>s'. InitiateComms A geometry x SOLUTION_MATRIX s = Inr s' \<and>
        (\<forall>b. b \<noteq> B_bufD_P2PSend \<and> b \<noteq> B_bufD_P2PRecv \<longrightarrow> mem s' b = mem s b) \<and>
        countPerPoint s' = max (countPerPoint s) (nVar A) \<and>
        comm_log s' = comm_log s @ [Initiate SOLUTION_MATRIX]"
  by (auto simp: InitiateComms_def AllocateP2PComms_def Let_def max_def fold_pack_message_frame)

lemma fold_put_assign_target:
  "inj_on fst (set ps) \<Longrightarrow> (d, s) \<in> set ps \<Longrightarrow> d < length xs \<Longrightarrow>
   fold (put False B) ps xs ! d = B ! s"
proof (induction ps arbitrary: xs)
  case Nil
  then show ?case by simp
next
  case (Cons p ps)
  have inj: "inj_on fst (set ps)" using Cons.prems(1) by (auto simp: inj_on_def)
  show ?case
  proof (cases "(d, s) \<in> set ps")
    case True
    from Cons.IH[OF inj True, of "put False B p xs"] Cons.prems(3) show ?thesis by simp
  next
    case False
    with Cons.prems(2) have p: "p = (d, s)" by simp
    have "d \<notin> fst ` set ps"
    proof
      assume "d \<in> fst ` set ps"
      then obtain q where q: "q \<in> set ps" "fst q = d" by auto
      with Cons.prems(1) p have "q = p" by (auto simp: inj_on_def)
      with q p False show False by simp
    qed
    then show ?thesis using Cons.prems(3) p by (simp add: fold_put_other) (simp add: put_def)
  qed
qed

lemma segment_exists:
  "(NP :: nat list) ! 0 \<le> k \<Longrightarrow> k < NP ! n \<Longrightarrow> \<exists>j<n. NP ! j \<le> k \<and> k < NP ! (j + 1)"
proof (induction n)
  case 0
  then show ?case by linarith
next
  case (Suc n)
  show ?case
  proof (cases "k < NP ! n")
    case True
    with Suc obtain j where "j < n" "NP ! j \<le> k" "k < NP ! (j + 1)" by auto
    then show ?thesis by (intro exI[of _ j]) simp
  next
    case False
    with Suc.prems show ?thesis by (intro exI[of _ n]) simp
  qed
qed

lemma slot_lt:
  "p < n \<Longrightarrow> v < nv \<Longrightarrow> p * nv + v < n * (nv::nat)"
proof -
  assume a: "p < n" "v < nv"
  then have "p * nv + v < (p + 1) * nv" by simp
  also have "\<dots> \<le> n * nv" using a(1) by (intro mult_le_mono1) simp
  finally show ?thesis .
qed

lemma column_block_update_eq:
  assumes "b \<noteq> B_matrix" "fst x_i \<noteq> b" "fst x_i \<noteq> B_matrix"
  shows "column_block_update nv node_i x_i b iPoint index m =
         m(b := rhs_sub nv (m (fst x_i)) (snd x_i) (m B_matrix) (iPoint, index) (m b),
           B_matrix := block_reset nv node_i (iPoint, index) (m B_matrix))"
proof -
  define M X where "M = m B_matrix" and "X = m (fst x_i)"
  have inner: "\<And>m' iVar. m' B_matrix = M \<and> m' (fst x_i) = X \<Longrightarrow>
      fold (\<lambda>jVar m. wr m (b, 0) (iPoint * nv + iVar)
                   (rd m (b, 0) (iPoint * nv + iVar)
                    - rd m (B_matrix, 0) (index * nv * nv + iVar * nv + jVar) * rd m x_i jVar))
        [0..<nv] m'
      = m'(b := fold (\<lambda>jVar B. B[iPoint * nv + iVar := B ! (iPoint * nv + iVar)
            - M ! (index * nv * nv + iVar * nv + jVar) * X ! (snd x_i + jVar)]) [0..<nv] (m' b))"
    by (rule fold_on_buffer[where I = "\<lambda>m. m B_matrix = M \<and> m (fst x_i) = X"])
       (use assms in \<open>auto simp: wr_def rd_def\<close>)
  have rhs: "fold (\<lambda>iVar. fold (\<lambda>jVar m.
                 wr m (b, 0) (iPoint * nv + iVar)
                   (rd m (b, 0) (iPoint * nv + iVar)
                    - rd m (B_matrix, 0) (index * nv * nv + iVar * nv + jVar) * rd m x_i jVar))
                 [0..<nv]) [0..<nv] m
      = m(b := rhs_sub nv X (snd x_i) M (iPoint, index) (m b))"
    unfolding rhs_sub_def fst_conv snd_conv
  proof (rule fold_on_buffer[where I = "\<lambda>m. m B_matrix = M \<and> m (fst x_i) = X"])
    show "m B_matrix = M \<and> m (fst x_i) = X" by (simp add: M_def X_def)
    show "\<And>m v. m B_matrix = M \<and> m (fst x_i) = X \<Longrightarrow>
         (m(b := v)) B_matrix = M \<and> (m(b := v)) (fst x_i) = X"
      using assms by simp
  qed (rule inner)
  have diag: "\<And>m'. fold (\<lambda>iVar m. wr m (B_matrix, 0) (index * nv * nv + iVar * (nv + 1)) 1) [0..<nv] m'
      = m'(B_matrix := fold (\<lambda>iVar M. M[index * nv * nv + iVar * (nv + 1) := 1]) [0..<nv] (m' B_matrix))"
    by (rule fold_on_buffer[where I = "\<lambda>m. True"]) (auto simp: wr_def)
  have zero: "\<And>m'. fold (\<lambda>iVar m. wr m (B_matrix, 0) (index * nv * nv + iVar) 0) [0..<nv * nv] m'
      = m'(B_matrix := fold (\<lambda>iVar M. M[index * nv * nv + iVar := 0]) [0..<nv * nv] (m' B_matrix))"
    by (rule fold_on_buffer[where I = "\<lambda>m. True"]) (auto simp: wr_def)
  show ?thesis
    unfolding column_block_update_def Let_def rhs diag zero block_reset_def fst_conv snd_conv
    using assms by (simp add: M_def X_def)
qed

lemma fold_filter_if: "fold (\<lambda>x m. if c x then f x m else m) xs = fold f (filter c xs)"
  by (induction xs) (auto simp: fun_eq_iff)

lemma enforce_loops_eq:
  "fold (\<lambda>iPoint m. fold (\<lambda>index m. if ci ! index = node_i then F iPoint index m else m)
           [rp ! iPoint ..< rp ! (iPoint + 1)] m) [0..<n] m
   = fold (\<lambda>h. F (fst h) (snd h)) (column_hits rp ci node_i n) m"
proof -
  have "\<And>p. (\<lambda>m. fold (\<lambda>index m. if ci ! index = node_i then F p index m else m)
           [rp ! p ..< rp ! (p + 1)] m)
        = fold (\<lambda>h. F (fst h) (snd h))
            (map (Pair p) (filter (\<lambda>index. ci ! index = node_i) [rp ! p..<rp ! (p + 1)]))"
    by (simp add: fold_filter_if fold_map comp_def)
  then show ?thesis
    unfolding column_hits_def fold_concat_map by simp
qed

lemma in_block_iff:
  assumes "r < n"
  shows "a * n \<le> x * n + r \<and> x * n + r < a * n + n \<longleftrightarrow> x = (a::nat)"
proof
  assume "a * n \<le> x * n + r \<and> x * n + r < a * n + n"
  then have "(x * n + r) div n = a" using div_in_block[of a n "x * n + r"] by (simp add: add.commute)
  moreover have "(x * n + r) div n = x" using assms by simp
  ultimately show "x = a" by simp
next
  assume "x = a" then show "a * n \<le> x * n + r \<and> x * n + r < a * n + n" using assms by simp
qed

lemma nth_fold_const:
  assumes "e < length M"
  shows "fold (\<lambda>i M. M[d i := v]) is M ! e = (if e \<in> d ` set is then v else M ! e)"
  using assms by (induction "is" arbitrary: M) (auto simp: nth_list_update)

lemma length_fold_const [simp]: "length (fold (\<lambda>i M. M[d i := v]) is M) = length M"
  by (induction "is" arbitrary: M) simp_all

lemma length_block_reset [simp]: "length (block_reset nv node_i h M) = length M"
  by (simp add: block_reset_def)

lemma length_rhs_sub [simp]: "length (rhs_sub nv X xo M h B) = length B"
  unfolding rhs_sub_def by (intro length_fold_same) (simp add: length_fold_update)

lemma diag_slot_iff:
  assumes "iVar < nv" "jVar < nv"
  shows "c + iVar * nv + jVar \<in> (\<lambda>k. c + k * (nv + 1)) ` set [0..<nv] \<longleftrightarrow> iVar = jVar"
proof
  assume "c + iVar * nv + jVar \<in> (\<lambda>k. c + k * (nv + 1)) ` set [0..<nv]"
  then obtain k where k: "k < nv" "c + iVar * nv + jVar = c + k * (nv + 1)" by auto
  then have "iVar * nv + jVar = k * nv + k" by simp
  from block_index_inj[OF assms(2) k(1) this] show "iVar = jVar" by simp
next
  assume "iVar = jVar"
  then have "c + iVar * nv + jVar = c + iVar * (nv + 1)" by simp
  then show "c + iVar * nv + jVar \<in> (\<lambda>k. c + k * (nv + 1)) ` set [0..<nv]"
    using assms(1) by (intro image_eqI[of _ _ iVar]) simp_all
qed

lemma nth_block_reset_other:
  assumes "e < length M" "\<not> (snd h * (nv * nv) \<le> e \<and> e < snd h * (nv * nv) + nv * nv)"
  shows "block_reset nv node_i h M ! e = M ! e"
proof -
  have "e \<notin> (\<lambda>k. snd h * nv * nv + k * (nv + 1)) ` set [0..<nv]"
  proof
    assume "e \<in> (\<lambda>k. snd h * nv * nv + k * (nv + 1)) ` set [0..<nv]"
    then obtain k where k: "k < nv" "e = snd h * nv * nv + k * (nv + 1)" by auto
    have "k * nv + k < nv * nv" by (rule slot_lt[OF k(1) k(1)])
    with k(2) assms(2) show False by (simp add: mult.assoc)
  qed
  moreover have "e \<notin> (\<lambda>k. snd h * nv * nv + k) ` set [0..<nv * nv]"
    using assms(2) by (auto simp: mult.assoc)
  ultimately show ?thesis using assms(1) by (auto simp: block_reset_def nth_fold_const)
qed

lemma nth_block_reset_in:
  assumes "snd h * nv * nv + iVar * nv + jVar < length M" "iVar < nv" "jVar < nv"
  shows "block_reset nv node_i h M ! (snd h * nv * nv + iVar * nv + jVar) =
         (if fst h = node_i then (if iVar = jVar then 1 else M ! (snd h * nv * nv + iVar * nv + jVar))
          else 0)"
proof -
  have "iVar * nv + jVar < nv * nv" by (rule slot_lt[OF assms(2,3)])
  then have "snd h * nv * nv + iVar * nv + jVar \<in> (\<lambda>k. snd h * nv * nv + k) ` set [0..<nv * nv]"
    by (intro image_eqI[of _ _ "iVar * nv + jVar"]) simp_all
  then show ?thesis
    using assms diag_slot_iff[OF assms(2,3), of "snd h * nv * nv"]
    by (simp add: block_reset_def nth_fold_const)
qed

lemma fold_sub_at:
  "fold (\<lambda>j P. P[d := P ! d - c j]) [0..<n] (P :: 'a::ab_group_add list)
   = P[d := P ! d - (\<Sum>j<n. c j)]"
  using fold_add_at[of d "\<lambda>j. - c j" n P] by (simp add: sum_negf)

lemma nth_fold_block_sub:
  assumes "k < length (P :: 'a::ab_group_add list)"
  shows "fold (\<lambda>i P. P[po + i := P ! (po + i) - S i]) [0..<n] P ! k =
         (if po \<le> k \<and> k < po + n then P ! k - S (k - po) else P ! k)"
  using nth_fold_block[OF assms, of po "\<lambda>i. - S i" n] by simp

lemma nth_rhs_sub:
  assumes "k < length B"
  shows "rhs_sub nv X xo M h B ! k =
         (if fst h * nv \<le> k \<and> k < fst h * nv + nv
          then B ! k - (\<Sum>jVar<nv. M ! (snd h * nv * nv + (k - fst h * nv) * nv + jVar) * X ! (xo + jVar))
          else B ! k)"
  unfolding rhs_sub_def fold_sub_at
  using nth_fold_block_sub[OF assms, of "fst h * nv"
      "\<lambda>i. \<Sum>jVar<nv. M ! (snd h * nv * nv + i * nv + jVar) * X ! (xo + jVar)" nv]
  by simp

lemma rhs_sub_cong:
  assumes "\<And>r. r < nv * nv \<Longrightarrow> M ! (snd h * nv * nv + r) = M' ! (snd h * nv * nv + r)"
  shows "rhs_sub nv X xo M h B = rhs_sub nv X xo M' h B"
proof -
  have "M ! (snd h * nv * nv + iVar * nv + jVar) = M' ! (snd h * nv * nv + iVar * nv + jVar)"
    if "iVar < nv" "jVar < nv" for iVar jVar
    using assms[OF slot_lt[OF that]] by (simp add: add.assoc)
  then show ?thesis
    unfolding rhs_sub_def
    by (intro fold_cong refl ext) (simp_all)
qed

lemma block_disjoint:
  assumes "x \<noteq> (a::nat)" "r < n"
  shows "\<not> (a * n \<le> x * n + r \<and> x * n + r < a * n + n)"
  using in_block_iff[OF assms(2), of a x] assms(1) by blast

lemma fold_column_hits_mem:
  assumes bufs: "b \<noteq> B_matrix" "fst x_i \<noteq> b" "fst x_i \<noteq> B_matrix"
    and "distinct (map snd hits)"
    and "\<forall>h\<in>set hits. snd h * nv * nv + nv * nv \<le> length (m B_matrix)"
  shows "fold (\<lambda>h. column_block_update nv node_i x_i b (fst h) (snd h)) hits m =
     m(b := fold (rhs_sub nv (m (fst x_i)) (snd x_i) (m B_matrix)) hits (m b),
       B_matrix := fold (block_reset nv node_i) hits (m B_matrix))"
  using assms(4,5)
proof (induction hits arbitrary: m)
  case Nil
  then show ?case by simp
next
  case (Cons h hs)
  let ?X = "m (fst x_i)" and ?M = "m B_matrix"
  let ?m' = "column_block_update nv node_i x_i b (fst h) (snd h) m"
  have m': "?m' = m(b := rhs_sub nv ?X (snd x_i) ?M h (m b), B_matrix := block_reset nv node_i h ?M)"
    using column_block_update_eq[OF bufs, of nv node_i "fst h" "snd h" m] by simp
  have vals: "?m' (fst x_i) = ?X" "?m' B_matrix = block_reset nv node_i h ?M"
    "?m' b = rhs_sub nv ?X (snd x_i) ?M h (m b)"
    using bufs by (simp_all add: m')
  have cong: "rhs_sub nv ?X (snd x_i) (block_reset nv node_i h ?M) h' =
              rhs_sub nv ?X (snd x_i) ?M h'" if "h' \<in> set hs" for h'
  proof (rule ext, rule rhs_sub_cong)
    fix r assume r: "r < nv * nv"
    have "snd h \<notin> snd ` set hs" using Cons.prems by simp
    then have ne: "snd h' \<noteq> snd h" using that by (metis imageI)
    have nb: "\<not> (snd h * (nv * nv) \<le> snd h' * (nv * nv) + r \<and>
               snd h' * (nv * nv) + r < snd h * (nv * nv) + nv * nv)"
      by (rule block_disjoint[OF ne r])
    have "snd h' * nv * nv + r < length ?M" using Cons.prems(2) that r by fastforce
    then show "block_reset nv node_i h ?M ! (snd h' * nv * nv + r) = ?M ! (snd h' * nv * nv + r)"
      using nth_block_reset_other[of "snd h' * nv * nv + r" ?M h nv node_i] nb
      by (simp add: mult.assoc)
  qed
  have "fold (rhs_sub nv ?X (snd x_i) (block_reset nv node_i h ?M)) hs =
        fold (rhs_sub nv ?X (snd x_i) ?M) hs"
    by (rule ext, rule fold_cong) (simp_all add: cong)
  moreover have "distinct (map snd hs)" using Cons.prems by simp
  moreover have "\<forall>h\<in>set hs. snd h * nv * nv + nv * nv \<le> length (?m' B_matrix)"
    using Cons.prems(2) by (simp add: vals)
  ultimately have "fold (\<lambda>h. column_block_update nv node_i x_i b (fst h) (snd h)) hs ?m' =
        ?m'(b := fold (rhs_sub nv ?X (snd x_i) ?M) hs (rhs_sub nv ?X (snd x_i) ?M h (m b)),
            B_matrix := fold (block_reset nv node_i) hs (block_reset nv node_i h ?M))"
    using Cons.IH[of ?m'] by (simp only: vals)
  then show ?case using bufs(1) by (intro ext) (simp add: m')
qed

lemma nth_fold_pointwise:
  assumes pt: "\<And>h M. e < length M \<Longrightarrow> F h M ! e = g h (M ! e)"
    and len: "\<And>h M. length (F h M) = length M"
    and "e < length M"
  shows "fold F hs M ! e = fold g hs (M ! e)"
  using \<open>e < length M\<close>
proof (induction hs arbitrary: M)
  case Nil
  then show ?case by simp
next
  case (Cons h hs)
  have "e < length (F h M)" using Cons.prems len by simp
  from Cons.IH[OF this] pt[OF Cons.prems] show ?case by simp
qed

lemma scalar_fold_none:
  "filter In hs = [] \<Longrightarrow> fold (\<lambda>h v. if In h then G h v else v) hs v = v"
  by (induction hs arbitrary: v) (auto split: if_splits)

lemma scalar_fold_single:
  "filter In hs = [h0] \<Longrightarrow> fold (\<lambda>h v. if In h then G h v else v) hs v = G h0 v"
proof (induction hs arbitrary: v)
  case Nil
  then show ?case by simp
next
  case (Cons h hs)
  show ?case
  proof (cases "In h")
    case True
    with Cons.prems have "h = h0" "filter In hs = []" by auto
    then show ?thesis using True by (simp add: scalar_fold_none)
  next
    case False
    with Cons show ?thesis by simp
  qed
qed

lemma scalar_fold_sub:
  "fold (\<lambda>h v. if In h then v - T h else v) hs (v :: 'a::ab_group_add)
   = v - sum_list (map T (filter In hs))"
  by (induction hs arbitrary: v) (simp_all add: algebra_simps)

lemma concat_upt_rows:
  "sorted rp \<Longrightarrow> n < length rp \<Longrightarrow>
   concat (map (\<lambda>p. [rp ! p..<rp ! (p + 1)]) [0..<n]) = [rp ! 0..<rp ! n]"
proof (induction n)
  case 0
  then show ?case by simp
next
  case (Suc n)
  have le1: "rp ! 0 \<le> rp ! n" using Suc.prems by (intro sorted_nth_mono) simp_all
  have le2: "rp ! n \<le> rp ! Suc n" using Suc.prems by (intro sorted_nth_mono) simp_all
  have "[rp ! 0..<rp ! Suc n] = [rp ! 0..<rp ! n] @ [rp ! n..<rp ! Suc n]"
    using upt_add_eq_append[OF le1, of "rp ! Suc n - rp ! n"] le2 by simp
  then show ?case using Suc by simp
qed

lemma map_snd_column_hits:
  "map snd (column_hits rp ci node_i n) =
   filter (\<lambda>index. ci ! index = node_i) (concat (map (\<lambda>p. [rp ! p..<rp ! (p + 1)]) [0..<n]))"
  by (induction n) (simp_all add: column_hits_def comp_def)

lemma distinct_column_hits:
  "sorted rp \<Longrightarrow> n < length rp \<Longrightarrow> distinct (map snd (column_hits rp ci node_i n))"
  unfolding map_snd_column_hits by (subst concat_upt_rows) simp_all

lemma column_hits_mem:
  "(p, idx) \<in> set (column_hits rp ci node_i n) \<longleftrightarrow>
   p < n \<and> rp ! p \<le> idx \<and> idx < rp ! (p + 1) \<and> ci ! idx = node_i"
  by (auto simp: column_hits_def)

lemma distinct_snd_filter_single:
  "distinct (map snd ps) \<Longrightarrow> (d, s) \<in> set ps \<Longrightarrow> filter (\<lambda>p. snd p = s) ps = [(d, s)]"
proof (induction ps)
  case Nil
  then show ?case by simp
next
  case (Cons p ps)
  show ?case
  proof (cases "p = (d, s)")
    case True
    with Cons.prems(1) have "s \<notin> snd ` set ps" by auto
    then have "filter (\<lambda>p. snd p = s) ps = []" by (auto simp: filter_empty_conv)
    with True show ?thesis by simp
  next
    case False
    with Cons.prems have in_ps: "(d, s) \<in> set ps" by auto
    then have "s \<in> snd ` set ps" by force
    then have "snd p \<noteq> s" using Cons.prems(1) by auto
    then show ?thesis using Cons.IH in_ps Cons.prems(1) by simp
  qed
qed

lemma filter_snd_column_hits:
  assumes "sorted rp" "n < length rp" "p < n" "rp ! p \<le> idx" "idx < rp ! (p + 1)"
  shows "filter (\<lambda>h. snd h = idx) (column_hits rp ci node_i n) =
         (if ci ! idx = node_i then [(p, idx)] else [])"
proof (cases "ci ! idx = node_i")
  case True
  then have "(p, idx) \<in> set (column_hits rp ci node_i n)"
    using assms by (simp add: column_hits_mem)
  from distinct_snd_filter_single[OF distinct_column_hits[OF assms(1,2)] this] True
  show ?thesis by simp
next
  case False
  have "\<not> snd h = idx" if "h \<in> set (column_hits rp ci node_i n)" for h
    using that False column_hits_mem[of "fst h" "snd h" rp ci node_i n] by auto
  then show ?thesis using False by (simp add: filter_empty_conv)
qed

lemma filter_fst_column_hits:
  assumes "p < n"
  shows "filter (\<lambda>h. fst h = p) (column_hits rp ci node_i n) =
         map (Pair p) (filter (\<lambda>index. ci ! index = node_i) [rp ! p..<rp ! (p + 1)])"
  using assms
proof (induction n)
  case 0
  then show ?case by simp
next
  case (Suc n)
  have step: "column_hits rp ci node_i (Suc n) = column_hits rp ci node_i n @
      map (Pair n) (filter (\<lambda>index. ci ! index = node_i) [rp ! n..<rp ! (n + 1)])"
    by (simp add: column_hits_def)
  show ?case
  proof (cases "p = n")
    case True
    have "filter (\<lambda>h. fst h = n) (column_hits rp ci node_i n) = []"
      using column_hits_mem[of _ _ rp ci node_i n] by (auto simp: filter_empty_conv)
    then show ?thesis using True by (simp add: step filter_map comp_def)
  next
    case False
    then have "p < n" using Suc.prems by simp
    from Suc.IH[OF this] False show ?thesis by (simp add: step filter_map comp_def)
  qed
qed

lemma nth_fold_assign_block:
  assumes "k < length P"
  shows "fold (\<lambda>i P. P[po + i := c i]) [0..<n] P ! k =
         (if po \<le> k \<and> k < po + n then c (k - po) else P ! k)"
proof (induction n)
  case 0
  then show ?case by auto
next
  case (Suc n)
  have len: "length (fold (\<lambda>i P. P[po + i := c i]) [0..<n] P) = length P"
    by (rule length_fold_update)
  show ?case
  proof (cases "k = po + n")
    case True
    then show ?thesis using Suc assms len by simp
  next
    case False
    then show ?thesis using Suc assms len by (auto simp: nth_list_update)
  qed
qed

lemma EnforceSolutionAtNode_eq:
  assumes bufs: "b \<noteq> B_matrix" "fst x_i \<noteq> b" "fst x_i \<noteq> B_matrix"
    and pat: "wf_pattern (nPoint A) (nPoint A) (row_ptr A) (col_ind A)"
    and len: "length (m B_matrix) = length (col_ind A) * nVar A * nVar A"
  shows "EnforceSolutionAtNode A node_i x_i b m =
     m(b := fold (\<lambda>iVar B. B[node_i * nVar A + iVar := m (fst x_i) ! (snd x_i + iVar)]) [0..<nVar A]
             (fold (rhs_sub (nVar A) (m (fst x_i)) (snd x_i)
                      (fold (\<lambda>index M. M[index := 0])
                         [row_ptr A ! node_i * nVar A * nVar A ..<
                          row_ptr A ! (node_i + 1) * nVar A * nVar A] (m B_matrix)))
                (column_hits (row_ptr A) (col_ind A) node_i (nPoint A)) (m b)),
       B_matrix := fold (block_reset (nVar A) node_i)
                     (column_hits (row_ptr A) (col_ind A) node_i (nPoint A))
                     (fold (\<lambda>index M. M[index := 0])
                         [row_ptr A ! node_i * nVar A * nVar A ..<
                          row_ptr A ! (node_i + 1) * nVar A * nVar A] (m B_matrix)))"
proof -
  let ?nv = "nVar A"
  define hits where "hits = column_hits (row_ptr A) (col_ind A) node_i (nPoint A)"
  define M1 where "M1 = fold (\<lambda>index M. M[index := 0])
               [row_ptr A ! node_i * ?nv * ?nv ..< row_ptr A ! (node_i + 1) * ?nv * ?nv] (m B_matrix)"
  define m1 where "m1 = fold (\<lambda>index m. wr m (B_matrix, 0) index 0)
               [row_ptr A ! node_i * ?nv * ?nv ..< row_ptr A ! (node_i + 1) * ?nv * ?nv] m"
  have m1: "m1 = m(B_matrix := M1)"
    unfolding m1_def M1_def
    by (rule fold_on_buffer[where I = "\<lambda>m. True"]) (auto simp: wr_def)
  have sorted: "sorted (row_ptr A)" "nPoint A < length (row_ptr A)"
    "row_ptr A ! nPoint A = length (col_ind A)"
    using pat by (simp_all add: wf_pattern_def)
  have dist: "distinct (map snd hits)"
    unfolding hits_def by (rule distinct_column_hits[OF sorted(1,2)])
  have l1: "length (m1 B_matrix) = length (col_ind A) * ?nv * ?nv"
    using len by (simp add: m1 M1_def)
  have inr: "\<forall>h\<in>set hits. snd h * ?nv * ?nv + ?nv * ?nv \<le> length (m1 B_matrix)"
  proof
    fix h assume "h \<in> set hits"
    then have h: "fst h < nPoint A" "snd h < row_ptr A ! (fst h + 1)"
      using column_hits_mem[of "fst h" "snd h" "row_ptr A" "col_ind A" node_i "nPoint A"]
      by (auto simp: hits_def)
    have "row_ptr A ! (fst h + 1) \<le> row_ptr A ! nPoint A"
      using sorted h(1) by (intro sorted_nth_mono) simp_all
    with h(2) sorted(3) have "snd h + 1 \<le> length (col_ind A)" by simp
    then have "(snd h + 1) * (?nv * ?nv) \<le> length (col_ind A) * (?nv * ?nv)"
      by (rule mult_le_mono1)
    then show "snd h * ?nv * ?nv + ?nv * ?nv \<le> length (m1 B_matrix)"
      unfolding l1 by (simp add: algebra_simps)
  qed
  define m2 where "m2 = fold (\<lambda>iPoint m.
                 fold (\<lambda>index m.
                   if col_ind A ! index = node_i
                   then column_block_update ?nv node_i x_i b iPoint index m
                   else m)
                 [row_ptr A ! iPoint ..< row_ptr A ! (iPoint + 1)] m)
                 [0..<nPoint A] m1"
  have "m2 = fold (\<lambda>h. column_block_update ?nv node_i x_i b (fst h) (snd h)) hits m1"
    unfolding m2_def hits_def by (rule enforce_loops_eq)
  also have "\<dots> = m1(b := fold (rhs_sub ?nv (m1 (fst x_i)) (snd x_i) (m1 B_matrix)) hits (m1 b),
       B_matrix := fold (block_reset ?nv node_i) hits (m1 B_matrix))"
    by (rule fold_column_hits_mem[where m = m1 and nv = ?nv and hits = hits, OF bufs dist inr])
  finally have m2: "m2 = m(b := fold (rhs_sub ?nv (m (fst x_i)) (snd x_i) M1) hits (m b),
       B_matrix := fold (block_reset ?nv node_i) hits M1)"
    using bufs by (intro ext) (simp add: m1)
  have m3: "fold (\<lambda>iVar m. wr m (b, 0) (node_i * ?nv + iVar) (rd m x_i iVar)) [0..<?nv] m2
      = m2(b := fold (\<lambda>iVar B. B[node_i * ?nv + iVar := m (fst x_i) ! (snd x_i + iVar)]) [0..<?nv]
                   (m2 b))"
    by (rule fold_on_buffer[where I = "\<lambda>m'. m' (fst x_i) = m (fst x_i)"])
       (use bufs in \<open>auto simp: wr_def rd_def m2\<close>)
  have "EnforceSolutionAtNode A node_i x_i b m =
        fold (\<lambda>iVar m. wr m (b, 0) (node_i * ?nv + iVar) (rd m x_i iVar)) [0..<?nv] m2"
    unfolding EnforceSolutionAtNode_def Let_def m2_def m1_def ..
  also have "\<dots> = m(b := fold (\<lambda>iVar B. B[node_i * ?nv + iVar := m (fst x_i) ! (snd x_i + iVar)]) [0..<?nv]
             (fold (rhs_sub ?nv (m (fst x_i)) (snd x_i) M1) hits (m b)),
       B_matrix := fold (block_reset ?nv node_i) hits M1)"
    unfolding m3 using bufs by (intro ext) (simp add: m2)
  finally show ?thesis unfolding M1_def hits_def .
qed

lemma block_range_iff:
  assumes "r < n"
  shows "a * n \<le> x * n + r \<and> x * n + r < c * n \<longleftrightarrow> a \<le> x \<and> x < (c::nat)"
proof -
  have n: "0 < n" using assms by simp
  have d: "(x * n + r) div n = x" using assms by simp
  show ?thesis
    using less_eq_div_iff_mult_less_eq[OF n, of a "x * n + r"]
      div_less_iff_less_mult[OF n, of "x * n + r" c] d by simp
qed

lemma row_not_in_other:
  assumes "sorted (rp :: nat list)" "n < length rp" "p < n" "q < n" "p \<noteq> q"
    "rp ! p \<le> index" "index < rp ! (p + 1)"
  shows "\<not> (rp ! q \<le> index \<and> index < rp ! (q + 1))"
proof (cases "p < q")
  case True
  then have "rp ! (p + 1) \<le> rp ! q" using assms by (intro sorted_nth_mono) simp_all
  with assms(7) show ?thesis by simp
next
  case False
  with assms(5) have "q + 1 \<le> p" by simp
  then have "rp ! (q + 1) \<le> rp ! p" using assms by (intro sorted_nth_mono) simp_all
  with assms(6) show ?thesis by simp
qed

lemma matrix_slot_bound:
  assumes "sorted (rp :: nat list)" "n < length rp" "rp ! n = nz" "p < n" "index < rp ! (p + 1)"
    "iVar < nv" "jVar < nv"
  shows "index * nv * nv + iVar * nv + jVar < nz * nv * (nv::nat)"
proof -
  have "rp ! (p + 1) \<le> rp ! n" using assms by (intro sorted_nth_mono) simp_all
  then have "index < nz" using assms by simp
  moreover have "iVar * nv + jVar < nv * nv" by (rule slot_lt[OF assms(6,7)])
  ultimately have "index * (nv * nv) + (iVar * nv + jVar) < nz * (nv * nv)" by (rule slot_lt)
  then show ?thesis by (simp add: mult.assoc add.assoc)
qed

lemma wf_offsets_mono:
  assumes "wf_offsets n NP LP" "j \<le> k" "k \<le> n"
  shows "NP ! j \<le> NP ! k"
  using assms(2,3)
proof (induction k)
  case 0
  then show ?case by simp
next
  case (Suc k)
  show ?case
  proof (cases "j = Suc k")
    case True
    then show ?thesis by simp
  next
    case False
    then have "j \<le> k" using Suc.prems by simp
    then have "NP ! j \<le> NP ! k" using Suc by simp
    moreover have "NP ! k \<le> NP ! (k + 1)" using assms(1) Suc.prems by (simp add: wf_offsets_def)
    ultimately show ?thesis by simp
  qed
qed

lemma wf_offsets_message:
  assumes "wf_offsets n NP LP" "j < n"
  shows "NP ! j \<le> NP ! (j + 1)" "NP ! (j + 1) \<le> length LP" "NP ! (j + 1) < 2 ^ 64"
proof -
  show "NP ! j \<le> NP ! (j + 1)" using assms by (simp add: wf_offsets_def)
  have "NP ! (j + 1) \<le> NP ! n" using wf_offsets_mono[OF assms(1), of "j + 1" n] assms(2) by simp
  then show "NP ! (j + 1) \<le> length LP" using assms(1) by (simp add: wf_offsets_def)
  then show "NP ! (j + 1) < 2 ^ 64" using assms(1) by (simp add: wf_offsets_def)
qed






lemma CompleteComms_forward_mem:
  assumes "x \<noteq> B_bufD_P2PRecv" "length (arrival env) = nP2PRecv geometry"
    and "wf_offsets (nP2PRecv geometry) (nPoint_P2PRecv geometry) (Local_Point_P2PRecv geometry)"
    and "\<forall>src\<in>set (arrival env). P2PRecv2Neighbor geometry src < nP2PRecv geometry"
    and "x \<noteq> B_bufD_P2PSend"
  shows "\<exists>s'. CompleteComms A geometry x SOLUTION_MATRIX env s = Inr s' \<and>
           comm_log s' = comm_log s @ [Complete SOLUTION_MATRIX] \<and>
           countPerPoint s' = countPerPoint s \<and>
           mem s' B_bufD_P2PSend = mem s B_bufD_P2PSend \<and>
           mem s' x = fold (put False (incoming env))
                      (all_pairs (nVar A) (countPerPoint s) (nPoint_P2PRecv geometry)
                         (Local_Point_P2PRecv geometry) (P2PRecv2Neighbor geometry) (arrival env))
                      (mem s x)"
proof -
  have offs: "\<forall>src\<in>set (arrival env).
           nPoint_P2PRecv geometry ! P2PRecv2Neighbor geometry src
             \<le> nPoint_P2PRecv geometry ! (P2PRecv2Neighbor geometry src + 1) \<and>
           nPoint_P2PRecv geometry ! (P2PRecv2Neighbor geometry src + 1) < 2 ^ 64"
    using wf_offsets_message[OF assms(3)] assms(4) by blast
  show ?thesis
  proof (cases "nP2PRecv geometry > 0")
    case True
    then show ?thesis
      using assms(1,5) by (simp add: CompleteComms_SOLUTION_MATRIX[OF assms(1,2) offs])
  next
    case False
    then have "arrival env = []" using assms(2) by simp
    with False show ?thesis
      by (simp add: CompleteComms_SOLUTION_MATRIX[OF assms(1,2) offs] all_pairs_def)
  qed
qed


lemma fold_put_assign_unique:
  assumes "(d, s0) \<in> set ps" "\<forall>p\<in>set ps. fst p = d \<longrightarrow> snd p = s0" "d < length xs"
  shows "fold (put False B) ps xs ! d = B ! s0"
  using assms
proof (induction ps arbitrary: xs)
  case Nil
  then show ?case by simp
next
  case (Cons p ps)
  have len: "d < length (put False B p xs)" using Cons.prems(3) by simp
  show ?case
  proof (cases "(d, s0) \<in> set ps")
    case True
    from Cons.IH[OF True _ len] Cons.prems(2) show ?thesis by simp
  next
    case False
    with Cons.prems(1) have p: "p = (d, s0)" by simp
    have "d \<notin> fst ` set ps"
    proof
      assume "d \<in> fst ` set ps"
      then obtain q where q: "q \<in> set ps" "fst q = d" by auto
      with Cons.prems(2) have "snd q = s0" by simp
      with q have "(d, s0) \<in> set ps" by (metis prod.collapse)
      with False show False by simp
    qed
    then show ?thesis using Cons.prems(3) p by (simp add: fold_put_other) (simp add: put_def)
  qed
qed

text \<open>
  The packing of a message seen on the send buffer alone.
\<close>

lemma pack_message_eq:
  fixes m :: "('a::plus) memory"
  assumes "x \<noteq> b"
  shows "pack_message nv cpp NP LP b x j m =
         m(b := fold (put False (m x)) (map prod.swap (msg_pairs nv cpp NP LP j)) (m b))"
proof -
  define X where "X = m x"
  have inner: "\<And>m' p s. m' x = X \<Longrightarrow>
      fold (\<lambda>iVar m. wr m (b, 0) (s + iVar) (rd m (x, 0) (p + iVar))) [0..<nv] m'
      = m'(b := fold (\<lambda>v. put False X (s + v, p + v)) [0..<nv] (m' b))"
    by (rule fold_on_buffer[where I = "\<lambda>m. m x = X"])
       (use assms in \<open>auto simp: wr_def rd_def put_def\<close>)
  have "pack_message nv cpp NP LP b x j m =
        m(b := fold (\<lambda>i. fold (\<lambda>v. put False X ((NP ! j + i) * cpp + v, (LP ! (NP ! j + i)) * nv + v)) [0..<nv])
                 [0..<NP ! (j + 1) - NP ! j] (m b))"
    unfolding pack_message_def Let_def
    by (rule fold_on_buffer[where I = "\<lambda>m. m x = X"])
       (use assms in \<open>auto simp: inner X_def\<close>)
  also have "fold (\<lambda>i. fold (\<lambda>v. put False X ((NP ! j + i) * cpp + v, (LP ! (NP ! j + i)) * nv + v)) [0..<nv])
                 [0..<NP ! (j + 1) - NP ! j] (m b)
     = fold (put False X) (map prod.swap (msg_pairs nv cpp NP LP j)) (m b)"
    by (simp add: msg_pairs_def fold_concat_map fold_map comp_def map_concat)
  finally show ?thesis by (simp only: X_def)
qed

lemma fold_pack_messages:
  fixes m :: "('a::plus) memory"
  assumes "x \<noteq> b"
  shows "fold (pack_message nv cpp NP LP b x) js m =
         m(b := fold (put False (m x))
                 (map prod.swap (concat (map (msg_pairs nv cpp NP LP) js))) (m b))"
proof -
  define X where "X = m x"
  have "fold (pack_message nv cpp NP LP b x) js m =
        m(b := fold (\<lambda>j. fold (put False X) (map prod.swap (msg_pairs nv cpp NP LP j))) js (m b))"
    by (rule fold_on_buffer[where I = "\<lambda>m. m x = X"])
       (use assms in \<open>auto simp: pack_message_eq X_def\<close>)
  also have "fold (\<lambda>j. fold (put False X) (map prod.swap (msg_pairs nv cpp NP LP j))) js (m b)
      = fold (put False X) (map prod.swap (concat (map (msg_pairs nv cpp NP LP) js))) (m b)"
    by (simp add: map_concat fold_concat_map comp_def)
  finally show ?thesis by (simp only: X_def)
qed

lemma InitiateComms_send_buffer:
  fixes s :: "('a::{zero,plus}) state"
  assumes ne: "x \<noteq> B_bufD_P2PSend" "x \<noteq> B_bufD_P2PRecv"
    and wf: "wf_offsets (nP2PSend geometry) (nPoint_P2PSend geometry) (Local_Point_P2PSend geometry)"
    and fits: "nVar A \<le> countPerPoint s \<longrightarrow>
        countPerPoint s * length (Local_Point_P2PSend geometry) \<le> length (mem s B_bufD_P2PSend)"
    and run: "InitiateComms A geometry x SOLUTION_MATRIX s = Inr s'"
    and k: "k < length (Local_Point_P2PSend geometry)" "v < nVar A"
  shows "mem s' B_bufD_P2PSend ! (k * max (countPerPoint s) (nVar A) + v) =
         mem s x ! (Local_Point_P2PSend geometry ! k * nVar A + v)"
proof -
  define nv where "nv = nVar A"
  define NP where "NP = nPoint_P2PSend geometry"
  define LP where "LP = Local_Point_P2PSend geometry"
  define n where "n = nP2PSend geometry"
  define cpp where "cpp = max (countPerPoint s) nv"
  define s1 where "s1 = (if nv > countPerPoint s then AllocateP2PComms geometry nv s else s)"
  define ps where "ps = map prod.swap (concat (map (msg_pairs nv cpp NP LP) [0..<n]))"
  have wf': "NP ! 0 = 0" "NP ! n = length LP"
    using wf by (simp_all add: wf_offsets_def NP_def LP_def n_def)
  have kk: "k < length LP" "v < nv" using k by (simp_all add: LP_def nv_def)
  have npos: "n > 0" using wf' kk(1) by (cases n) auto
  have cpp1: "countPerPoint s1 = cpp" by (simp add: s1_def cpp_def AllocateP2PComms_def max_def)
  have x1: "mem s1 x = mem s x" using ne by (simp add: s1_def AllocateP2PComms_def)
  have len1: "cpp * length LP \<le> length (mem s1 B_bufD_P2PSend)"
  proof (cases "nv > countPerPoint s")
    case True
    then show ?thesis
      using wf'(2) by (simp add: s1_def AllocateP2PComms_def cpp_def max_def NP_def n_def nv_def)
  next
    case False
    then show ?thesis using fits by (simp add: s1_def cpp_def max_def nv_def LP_def)
  qed
  have "s' = s1\<lparr>comm_log := comm_log s1 @ [Initiate SOLUTION_MATRIX],
                mem := fold (pack_message nv cpp NP LP B_bufD_P2PSend x) [0..<n] (mem s1)\<rparr>"
    using run npos unfolding s1_def cpp_def nv_def NP_def LP_def n_def
    by (auto simp add: InitiateComms_def Let_def AllocateP2PComms_def max_def)
  then have send: "mem s' B_bufD_P2PSend = fold (put False (mem s x)) ps (mem s1 B_bufD_P2PSend)"
    using ne(1) x1 by (simp add: fold_pack_messages ps_def)
  have nvcpp: "nv \<le> cpp" by (simp add: cpp_def)
  have "NP ! 0 \<le> k" "k < NP ! n" using wf' kk(1) by simp_all
  from segment_exists[OF this] obtain j where j: "j < n" "NP ! j \<le> k" "k < NP ! (j + 1)" by blast
  define i where "i = k - NP ! j"
  have i: "i < NP ! (j + 1) - NP ! j" "NP ! j + i = k" using j by (simp_all add: i_def)
  from msg_pairs_mem[OF i(1) kk(2), of LP cpp]
  have "(LP ! k * nv + v, k * cpp + v) \<in> set (msg_pairs nv cpp NP LP j)" by (simp add: i(2))
  with j(1) have mem: "(k * cpp + v, LP ! k * nv + v) \<in> set ps"
    unfolding ps_def by force
  have uniq: "\<forall>p\<in>set ps. fst p = k * cpp + v \<longrightarrow> snd p = LP ! k * nv + v"
  proof (intro ballI impI)
    fix p assume p: "p \<in> set ps" "fst p = k * cpp + v"
    then obtain j' where "(snd p, fst p) \<in> set (msg_pairs nv cpp NP LP j')"
      unfolding ps_def by force
    then obtain i' v' where iv: "v' < nv" "snd p = LP ! (NP ! j' + i') * nv + v'"
      "fst p = (NP ! j' + i') * cpp + v'"
      unfolding msg_pairs_set by auto
    have "v' < cpp" "v < cpp" using iv(1) kk(2) nvcpp by simp_all
    moreover have "(NP ! j' + i') * cpp + v' = k * cpp + v" using iv(3) p(2) by simp
    ultimately have "NP ! j' + i' = k \<and> v' = v" by (rule block_index_inj)
    then have "NP ! j' + i' = k" "v' = v" by simp_all
    with iv(2) show "snd p = LP ! k * nv + v" by simp
  qed
  have lt: "k * cpp + v < length (mem s1 B_bufD_P2PSend)"
  proof -
    have "k * cpp + v < length LP * cpp" using kk nvcpp by (intro slot_lt) simp_all
    then show ?thesis using len1 by (simp add: mult.commute)
  qed
  from fold_put_assign_unique[OF mem uniq lt, of "mem s x"] send
  show ?thesis by (simp add: cpp_def nv_def LP_def)
qed

lemma MatrixVectorProduct_mem:
  fixes A :: CSysMatrix and s :: "('a::field) state"
  assumes vectors: "is_vector (vec_val vec)" "is_vector (vec_val prd)" "vec_val vec \<noteq> vec_val prd"
    and conform: "GetNVar vec = nVar A" "GetNVar prd = nVar A"
      "GetNBlk vec = nPoint A" "GetNBlk prd = nPoint A"
    and arr: "length (arrival env) = nP2PRecv geometry"
    and recv_lists:
      "wf_offsets (nP2PRecv geometry) (nPoint_P2PRecv geometry) (Local_Point_P2PRecv geometry)"
      "\<forall>src\<in>set (arrival env). P2PRecv2Neighbor geometry src < nP2PRecv geometry"
    and send_lists:
      "wf_offsets (nP2PSend geometry) (nPoint_P2PSend geometry) (Local_Point_P2PSend geometry)"
      "nVar A \<le> countPerPoint s \<longrightarrow>
        countPerPoint s * length (Local_Point_P2PSend geometry) \<le> length (mem s B_bufD_P2PSend)"
  defines "Q \<equiv> fold (\<lambda>row_i. fold (\<lambda>index.
                 block_mac (nVar A) (mem s B_matrix) (index * nVar A * nVar A)
                   (mem s (vec_val vec)) (col_ind A ! index * nVar A) (row_i * nVar A))
                 [row_ptr A ! row_i..<row_ptr A ! (row_i + 1)]) [0..<nPointDomain A]
             (map (\<lambda>v. 0) (mem s (vec_val prd)))"
  shows "\<exists>s'. MatrixVectorProduct NDEBUG A geometry vec prd env s = Inr s' \<and>
      comm_log s' = comm_log s @ [Initiate SOLUTION_MATRIX, Complete SOLUTION_MATRIX] \<and>
      countPerPoint s' = max (countPerPoint s) (nVar A) \<and>
      mem s' (vec_val prd) =
        fold (put False (incoming env))
          (all_pairs (nVar A) (max (countPerPoint s) (nVar A)) (nPoint_P2PRecv geometry)
             (Local_Point_P2PRecv geometry) (P2PRecv2Neighbor geometry) (arrival env)) Q \<and>
      (\<forall>k<length (Local_Point_P2PSend geometry). \<forall>v<nVar A.
         mem s' B_bufD_P2PSend ! (k * max (countPerPoint s) (nVar A) + v) =
           Q ! (Local_Point_P2PSend geometry ! k * nVar A + v))"
proof -
  let ?x = "vec_val prd"
  have ne: "?x \<noteq> B_matrix" "?x \<noteq> vec_val vec" "?x \<noteq> B_bufD_P2PSend" "?x \<noteq> B_bufD_P2PRecv"
    "vec_val vec \<noteq> B_matrix"
    using vectors by (auto simp: is_vector_def split: buf.splits)
  let ?m0 = "(mem s)(?x := map (\<lambda>v. 0) (mem s ?x))"
  let ?m1 = "fold (\<lambda>row_i m.
                    let prod_begin = row_i * nVar A
                    in fold (\<lambda>index m.
                         let vec_begin = (col_ind A ! index) * nVar A;
                             mat_begin = index * nVar A * nVar A
                         in MatrixVectorProductAdd (nVar A) (B_matrix, mat_begin)
                              (vec_val vec, vec_begin) (?x, prod_begin) m)
                         [row_ptr A ! row_i ..< row_ptr A ! (row_i + 1)] m)
                    [0..<nPointDomain A] ?m0"
  have m1: "?m1 = ?m0(?x := Q)"
    using MatrixVectorProduct_rows_eq[OF ne(1,2), of "nVar A" "col_ind A" "row_ptr A" "nPointDomain A" ?m0]
      ne by (simp add: Q_def)
  define s0 where "s0 = s\<lparr>mem := ?m1\<rparr>"
  obtain s1 where s1: "InitiateComms A geometry ?x SOLUTION_MATRIX s0 = Inr s1"
    "mem s1 ?x = mem s0 ?x" "countPerPoint s1 = max (countPerPoint s0) (nVar A)"
    "comm_log s1 = comm_log s0 @ [Initiate SOLUTION_MATRIX]"
    using InitiateComms_SOLUTION_MATRIX[of A geometry ?x s0] ne by auto
  have x0: "mem s0 ?x = Q" using m1 by (simp add: s0_def)
  have fits0: "nVar A \<le> countPerPoint s0 \<longrightarrow>
        countPerPoint s0 * length (Local_Point_P2PSend geometry) \<le> length (mem s0 B_bufD_P2PSend)"
    using send_lists(2) ne(3) m1 by (simp add: s0_def)
  have send1: "mem s1 B_bufD_P2PSend ! (k * max (countPerPoint s) (nVar A) + v) =
         Q ! (Local_Point_P2PSend geometry ! k * nVar A + v)"
    if "k < length (Local_Point_P2PSend geometry)" "v < nVar A" for k v
    using InitiateComms_send_buffer[OF ne(3,4) send_lists(1) fits0 s1(1) that] x0
    by (simp add: s0_def)
  from CompleteComms_forward_mem[OF ne(4) arr recv_lists ne(3), of A s1]
  obtain s' where s': "CompleteComms A geometry ?x SOLUTION_MATRIX env s1 = Inr s'"
    "comm_log s' = comm_log s1 @ [Complete SOLUTION_MATRIX]"
    "countPerPoint s' = countPerPoint s1"
    "mem s' B_bufD_P2PSend = mem s1 B_bufD_P2PSend"
    "mem s' ?x = fold (put False (incoming env))
                      (all_pairs (nVar A) (countPerPoint s1) (nPoint_P2PRecv geometry)
                         (Local_Point_P2PRecv geometry) (P2PRecv2Neighbor geometry) (arrival env))
                      (mem s1 ?x)"
    by blast
  have "MatrixVectorProduct NDEBUG A geometry vec prd env s =
        CompleteComms A geometry ?x SOLUTION_MATRIX env s1"
    using conform s1(1) by (simp add: MatrixVectorProduct_def bind_err_def Let_def s0_def)
  with s' s1 x0 send1 show ?thesis
    by (intro exI[of _ s']) (simp add: s0_def)
qed

lemma MatrixVectorProduct_partition:
  fixes A :: CSysMatrix and s :: "('a::field) state"
  assumes "conforming A geometry vec prd env s"
  shows "\<exists>s'. MatrixVectorProduct NDEBUG A geometry vec prd env s = Inr s' \<and>
      length (mem s' (vec_val prd)) = nPoint A * nVar A \<and>
      (\<forall>row_i<nPointDomain A. \<forall>iVar<nVar A.
         mem s' (vec_val prd) ! (row_i * nVar A + iVar) =
           row_sum (nVar A) (row_ptr A) (col_ind A) (mem s B_matrix) (mem s (vec_val vec))
             row_i iVar) \<and>
      (\<forall>k<length (Local_Point_P2PRecv geometry). \<forall>iVar<nVar A.
         mem s' (vec_val prd) ! (Local_Point_P2PRecv geometry ! k * nVar A + iVar) =
           incoming env ! (k * max (countPerPoint s) (nVar A) + iVar)) \<and>
      (\<forall>p<nPoint A. nPointDomain A \<le> p \<longrightarrow> p \<notin> set (Local_Point_P2PRecv geometry) \<longrightarrow>
         (\<forall>iVar<nVar A. mem s' (vec_val prd) ! (p * nVar A + iVar) = 0)) \<and>
      (\<forall>k<length (Local_Point_P2PSend geometry). \<forall>iVar<nVar A.
         mem s' B_bufD_P2PSend ! (k * max (countPerPoint s) (nVar A) + iVar) =
           row_sum (nVar A) (row_ptr A) (col_ind A) (mem s B_matrix) (mem s (vec_val vec))
             (Local_Point_P2PSend geometry ! k) iVar) \<and>
      countPerPoint s' = max (countPerPoint s) (nVar A) \<and>
      comm_log s' = comm_log s @ [Initiate SOLUTION_MATRIX, Complete SOLUTION_MATRIX]"
proof -
  let ?nv = "nVar A"
  let ?LP = "Local_Point_P2PRecv geometry"
  let ?NP = "nPoint_P2PRecv geometry"
  let ?R = "P2PRecv2Neighbor geometry"
  let ?LS = "Local_Point_P2PSend geometry"
  let ?ps = "all_pairs ?nv (max (countPerPoint s) ?nv) ?NP ?LP ?R (arrival env)"
  let ?P0 = "map (\<lambda>v. 0::'a) (mem s (vec_val prd))"
  let ?Q = "fold (\<lambda>row_i. fold (\<lambda>index.
                 block_mac ?nv (mem s B_matrix) (index * ?nv * ?nv)
                   (mem s (vec_val vec)) (col_ind A ! index * ?nv) (row_i * ?nv))
                 [row_ptr A ! row_i..<row_ptr A ! (row_i + 1)]) [0..<nPointDomain A] ?P0"
  from assms have vectors: "is_vector (vec_val vec)" "is_vector (vec_val prd)"
      "vec_val vec \<noteq> vec_val prd"
    and conform: "GetNVar vec = nVar A" "GetNVar prd = nVar A"
      "GetNBlk vec = nPoint A" "GetNBlk prd = nPoint A"
      "length (mem s (vec_val vec)) = nPoint A * nVar A"
      "length (mem s (vec_val prd)) = nPoint A * nVar A"
    and pattern: "wf_pattern (nPoint A) (nPoint A) (row_ptr A) (col_ind A)"
      "length (mem s B_matrix) = length (col_ind A) * nVar A * nVar A"
      "nPointDomain A \<le> nPoint A"
    and halo: "wf_recv A geometry" "all_arrive geometry env"
    and send: "wf_send A geometry"
      "nVar A \<le> countPerPoint s \<longrightarrow>
        countPerPoint s * length ?LS \<le> length (mem s B_bufD_P2PSend)"
    by (simp_all add: conforming_def)
  have wfr: "wf_offsets (nP2PRecv geometry) ?NP ?LP" "distinct ?LP"
    "\<forall>p\<in>set ?LP. nPointDomain A \<le> p \<and> p < nPoint A"
    using halo(1) by (simp_all add: wf_recv_def)
  have wfs: "wf_offsets (nP2PSend geometry) (nPoint_P2PSend geometry) ?LS"
    "\<forall>p\<in>set ?LS. p < nPointDomain A"
    using send(1) by (simp_all add: wf_send_def)
  have arr_len: "length (arrival env) = nP2PRecv geometry"
    using halo(2) unfolding all_arrive_def by (metis length_map size_mset length_upt diff_zero)
  have arr_set: "?R ` set (arrival env) = {0..<nP2PRecv geometry}"
    using halo(2) unfolding all_arrive_def by (metis set_map set_mset_mset set_upt)
  have srcs: "\<forall>src\<in>set (arrival env). ?R src < nP2PRecv geometry"
    using arr_set by auto
  from MatrixVectorProduct_mem[OF vectors conform(1-4) arr_len wfr(1) srcs wfs(1) send(2), of NDEBUG]
  obtain s' where s': "MatrixVectorProduct NDEBUG A geometry vec prd env s = Inr s'"
    "comm_log s' = comm_log s @ [Initiate SOLUTION_MATRIX, Complete SOLUTION_MATRIX]"
    "countPerPoint s' = max (countPerPoint s) ?nv"
    "mem s' (vec_val prd) = fold (put False (incoming env)) ?ps ?Q"
    "\<forall>k<length ?LS. \<forall>v<?nv.
         mem s' B_bufD_P2PSend ! (k * max (countPerPoint s) ?nv + v) = ?Q ! (?LS ! k * ?nv + v)"
    by blast
  have lenQ: "length ?Q = nPoint A * ?nv"
    using conform(6) by (subst length_fold_same) (simp_all add: length_fold_same)
  have Q: "?Q ! k = (if k < nPointDomain A * ?nv
                     then row_sum ?nv (row_ptr A) (col_ind A) (mem s B_matrix) (mem s (vec_val vec))
                            (k div ?nv) (k mod ?nv)
                     else 0)" if "k < nPoint A * ?nv" for k
    using that conform(6)
      nth_fold_rows[of k ?P0 ?nv "mem s B_matrix" "mem s (vec_val vec)" "col_ind A" "row_ptr A"
        "nPointDomain A"]
    by simp
  have Qrow: "?Q ! (row_i * ?nv + iVar) =
      row_sum ?nv (row_ptr A) (col_ind A) (mem s B_matrix) (mem s (vec_val vec)) row_i iVar"
    if "row_i < nPointDomain A" "iVar < ?nv" for row_i iVar
  proof -
    have lt1: "row_i * ?nv + iVar < nPointDomain A * ?nv" by (rule slot_lt[OF that])
    have lt2: "row_i * ?nv + iVar < nPoint A * ?nv"
      using that pattern(3) by (intro slot_lt) simp_all
    show ?thesis using Q[OF lt2] lt1 that(2) by simp
  qed
  have bound: "\<forall>src\<in>set (arrival env). ?NP ! (?R src + 1) \<le> length ?LP"
    using wf_offsets_message(2)[OF wfr(1)] srcs by blast
  have inj: "inj_on fst (set ?ps)"
    using wfr(2) bound by (intro inj_on_fst_all_pairs) auto
  have dest_ghost: "\<exists>k v. k < length ?LP \<and> v < ?nv \<and> d = ?LP ! k * ?nv + v"
    if "d \<in> fst ` set ?ps" for d
  proof -
    from that obtain s0 where "(d, s0) \<in> set ?ps" by force
    from all_pairs_mem[OF this] bound show ?thesis by (metis less_le_trans)
  qed
  have owned: "fold (put False (incoming env)) ?ps ?Q ! (row_i * ?nv + iVar) =
      row_sum ?nv (row_ptr A) (col_ind A) (mem s B_matrix) (mem s (vec_val vec)) row_i iVar"
    if "row_i < nPointDomain A" "iVar < ?nv" for row_i iVar
  proof -
    have "row_i * ?nv + iVar \<notin> fst ` set ?ps"
    proof
      assume "row_i * ?nv + iVar \<in> fst ` set ?ps"
      from dest_ghost[OF this] obtain k v where kv: "k < length ?LP" "v < ?nv"
        "row_i * ?nv + iVar = ?LP ! k * ?nv + v" by blast
      from block_index_inj[OF that(2) kv(2) kv(3)] have "row_i = ?LP ! k" by simp
      moreover have "nPointDomain A \<le> ?LP ! k" using wfr(3) kv(1) by simp
      ultimately show False using that(1) by simp
    qed
    then have "fold (put False (incoming env)) ?ps ?Q ! (row_i * ?nv + iVar) = ?Q ! (row_i * ?nv + iVar)"
      by (rule fold_put_other)
    then show ?thesis using Qrow[OF that] by simp
  qed
  have ghost: "fold (put False (incoming env)) ?ps ?Q ! (?LP ! k * ?nv + iVar) =
      incoming env ! (k * max (countPerPoint s) ?nv + iVar)"
    if "k < length ?LP" "iVar < ?nv" for k iVar
  proof -
    have "?NP ! 0 \<le> k" "k < ?NP ! nP2PRecv geometry"
      using wfr(1) that(1) unfolding wf_offsets_def by simp_all
    from segment_exists[OF this] obtain j where j: "j < nP2PRecv geometry" "?NP ! j \<le> k" "k < ?NP ! (j + 1)"
      by blast
    then have "j \<in> ?R ` set (arrival env)" using arr_set by simp
    then obtain src where src: "src \<in> set (arrival env)" "?R src = j" by blast
    define i where "i = k - ?NP ! j"
    have i: "i < ?NP ! (j + 1) - ?NP ! j" "?NP ! j + i = k" using j by (simp_all add: i_def)
    from msg_pairs_mem[OF i(1) that(2), of ?LP "max (countPerPoint s) ?nv"]
    have "(?LP ! k * ?nv + iVar, k * max (countPerPoint s) ?nv + iVar)
          \<in> set (msg_pairs ?nv (max (countPerPoint s) ?nv) ?NP ?LP j)"
      by (simp add: i(2))
    with src have mem: "(?LP ! k * ?nv + iVar, k * max (countPerPoint s) ?nv + iVar) \<in> set ?ps"
      unfolding all_pairs_def by auto
    have "?LP ! k < nPoint A" using wfr(3) that(1) by simp
    then have "?LP ! k * ?nv + iVar < length ?Q" using slot_lt[OF _ that(2)] lenQ by simp
    from fold_put_assign_target[OF inj mem this] show ?thesis .
  qed
  have zero: "fold (put False (incoming env)) ?ps ?Q ! (p * ?nv + iVar) = 0"
    if "p < nPoint A" "nPointDomain A \<le> p" "p \<notin> set ?LP" "iVar < ?nv" for p iVar
  proof -
    have "p * ?nv + iVar \<notin> fst ` set ?ps"
    proof
      assume "p * ?nv + iVar \<in> fst ` set ?ps"
      from dest_ghost[OF this] obtain k v where kv: "k < length ?LP" "v < ?nv"
        "p * ?nv + iVar = ?LP ! k * ?nv + v" by blast
      from block_index_inj[OF that(4) kv(2) kv(3)] have "p = ?LP ! k" by simp
      with kv(1) that(3) show False by simp
    qed
    then have "fold (put False (incoming env)) ?ps ?Q ! (p * ?nv + iVar) = ?Q ! (p * ?nv + iVar)"
      by (rule fold_put_other)
    moreover have lt2: "p * ?nv + iVar < nPoint A * ?nv" by (rule slot_lt[OF that(1,4)])
    moreover have "\<not> p * ?nv + iVar < nPointDomain A * ?nv"
    proof -
      have "nPointDomain A * ?nv \<le> p * ?nv" using that(2) by simp
      then show ?thesis by linarith
    qed
    ultimately show ?thesis using Q[OF lt2] by simp
  qed
  have sendbuf: "mem s' B_bufD_P2PSend ! (k * max (countPerPoint s) ?nv + iVar) =
      row_sum ?nv (row_ptr A) (col_ind A) (mem s B_matrix) (mem s (vec_val vec)) (?LS ! k) iVar"
    if "k < length ?LS" "iVar < ?nv" for k iVar
  proof -
    have "?LS ! k < nPointDomain A" using wfs(2) that(1) by simp
    from Qrow[OF this that(2)] s'(5) that show ?thesis by simp
  qed
  show ?thesis
    using s'(1-4) lenQ owned ghost zero sendbuf
    by (intro exI[of _ s']) (simp only: length_fold_put, blast)
qed

lemma ex2_conforming: "conforming ex2_A ex2_geometry ex2_vec ex2_prod ex2_env ex2_state"
  unfolding conforming_def
proof (intro conjI)
  show "wf_pattern (nPoint ex2_A) (nPoint ex2_A) (row_ptr ex2_A) (col_ind ex2_A)"
    by code_simp
  show "wf_recv ex2_A ex2_geometry"
    by (simp add: wf_recv_def wf_offsets_def ex2_A_def ex2_geometry_def upt_rec)
  show "wf_send ex2_A ex2_geometry"
    by (simp add: wf_send_def wf_offsets_def ex2_A_def ex2_geometry_def upt_rec)
  show "all_arrive ex2_geometry ex2_env"
    by (simp add: all_arrive_def ex2_geometry_def ex2_env_def upt_rec)
qed (simp_all add: is_vector_def ex2_vec_def ex2_prod_def ex2_A_def ex2_state_def ex2_matrix_def
       ex2_geometry_def)

lemma ex3_conforming: "conforming ex3_A ex3_geometry ex3_vec ex3_prod ex1_env ex3_state"
  unfolding conforming_def
proof (intro conjI)
  show "wf_pattern (nPoint ex3_A) (nPoint ex3_A) (row_ptr ex3_A) (col_ind ex3_A)"
    by code_simp
  show "wf_recv ex3_A ex3_geometry"
    by (simp add: wf_recv_def wf_offsets_def ex3_A_def ex3_geometry_def upt_rec)
  show "wf_send ex3_A ex3_geometry"
    by (simp add: wf_send_def wf_offsets_def ex3_A_def ex3_geometry_def upt_rec)
  show "all_arrive ex3_geometry ex1_env"
    by (simp add: all_arrive_def ex3_geometry_def ex1_env_def)
qed (simp_all add: is_vector_def ex3_vec_def ex3_prod_def ex3_A_def ex3_state_def ex3_geometry_def)

lemma ex3_row_sum:
  "row_sum (nVar ex3_A) (row_ptr ex3_A) (col_ind ex3_A) (mem ex3_state B_matrix)
     (mem ex3_state (vec_val ex3_vec)) 0 0 = 10"
  "row_sum (nVar ex3_A) (row_ptr ex3_A) (col_ind ex3_A) (mem ex3_state B_matrix)
     (mem ex3_state (vec_val ex3_vec)) 0 (Suc 0) = 20"
  by (simp_all add: row_sum_def ex3_A_def ex3_state_def ex3_vec_def lessThan_Suc
        numeral_2_eq_2)

lemma ex2_row_sum:
  "row_sum (nVar ex2_A) (row_ptr ex2_A) (col_ind ex2_A) (mem ex2_state B_matrix)
     (mem ex2_state (vec_val ex2_vec)) 0 0 = 13"
  by (simp add: row_sum_def ex2_A_def ex2_state_def ex2_vec_def ex2_matrix_def lessThan_Suc
        numeral_2_eq_2 numeral_3_eq_3 atLeast0_lessThan_Suc)

lemma filter_update_less:
  "i < length xs \<Longrightarrow> xs ! i \<Longrightarrow>
   length (filter (\<lambda>b. b) (xs[i := False])) < length (filter (\<lambda>b. b) xs)"
proof (induction xs arbitrary: i)
  case Nil
  then show ?case by simp
next
  case (Cons x xs)
  show ?case
  proof (cases i)
    case 0
    with Cons.prems show ?thesis by simp
  next
    case (Suc k)
    with Cons.prems Cons.IH[of k] show ?thesis by simp
  qed
qed

lemma fold_count_hits:
  "fold (\<lambda>iNode (add_point, counter, next_Point).
       if Q (pts ! iNode) then (True, counter + 1, pts ! iNode)
       else (add_point, counter, next_Point)) [0..<n] (a, c, x)
   = (a \<or> filter Q (take n pts) \<noteq> [],
      c + length (filter Q (take n pts)),
      if filter Q (take n pts) = [] then x else last (filter Q (take n pts)))"
  if "n \<le> length pts"
  using that
proof (induction n)
  case 0
  then show ?case by simp
next
  case (Suc n)
  then have "take (Suc n) pts = take n pts @ [pts ! n]" by (simp add: take_Suc_conv_app_nth)
  with Suc show ?case by simp
qed

lemma next_linelet_point_eq:
  "next_linelet_point fp geometry linelet check_Point index_Point =
     (if length (filter (code_qualifies fp geometry linelet check_Point index_Point)
                   (node_GetPoint geometry ! (linelet ! index_Point))) = 1
      then Some (last (filter (code_qualifies fp geometry linelet check_Point index_Point)
                   (node_GetPoint geometry ! (linelet ! index_Point))))
      else None)"
proof -
  define pts where "pts = node_GetPoint geometry ! (linelet ! index_Point)"
  define Q where "Q = code_qualifies fp geometry linelet check_Point index_Point"
  define cands where "cands = filter Q pts"
  have F: "fold (\<lambda>iNode (add_point, counter, next_Point).
       if Q (pts ! iNode) then (True, counter + 1, pts ! iNode)
       else (add_point, counter, next_Point)) [0..<length pts] (False, 0, pts ! 0)
     = (cands \<noteq> [], length cands, if cands = [] then pts ! 0 else last cands)"
    using fold_count_hits[of "length pts" pts Q False 0 "pts ! 0"] by (simp add: cands_def)
  note F' = F[unfolded Q_def code_qualifies_def pts_def]
  have "next_linelet_point fp geometry linelet check_Point index_Point =
        (case (cands \<noteq> [], length cands, if cands = [] then pts ! 0 else last cands) of
           (add_point, counter, next_Point) \<Rightarrow>
             if (if counter > 1 then False else add_point) then Some next_Point else None)"
    unfolding next_linelet_point_def Let_def F' pts_def ..
  also have "\<dots> = (if length cands = 1 then Some (last cands) else None)"
    by (cases cands) auto
  finally show ?thesis unfolding cands_def Q_def pts_def .
qed

lemma next_linelet_point_Some:
  assumes "next_linelet_point fp geometry linelet check_Point index_Point = Some next_Point"
  shows "check_at check_Point next_Point"
proof -
  define pts where "pts = node_GetPoint geometry ! (linelet ! index_Point)"
  define Q where "Q = code_qualifies fp geometry linelet check_Point index_Point"
  from assms have "length (filter Q pts) = 1" "next_Point = last (filter Q pts)"
    unfolding next_linelet_point_eq pts_def Q_def by (auto split: if_splits)
  then have "next_Point \<in> set (filter Q pts)"
    by (metis last_in_set length_0_conv zero_neq_one)
  then show ?thesis by (simp add: Q_def code_qualifies_def)
qed

termination grow_linelet
proof (relation "measure (\<lambda>(fp, geometry, (linelet, check_Point), index_Point).
                   length (filter (\<lambda>b. b) check_Point))")
  show "wf (measure (\<lambda>(fp, geometry, (linelet, check_Point), index_Point).
                   length (filter (\<lambda>b. b) check_Point)))"
    by simp
next
  fix fp :: "'a arith" and geometry :: "'a CMesh" and linelet check_Point index_Point next_Point
  assume "next_linelet_point fp geometry linelet check_Point index_Point = Some next_Point"
  from next_linelet_point_Some[OF this]
  show "((fp, geometry, (linelet @ [next_Point], check_Point[next_Point := False]), index_Point + 1),
         (fp, geometry, (linelet, check_Point), index_Point))
        \<in> measure (\<lambda>(fp, geometry, (linelet, check_Point), index_Point).
                   length (filter (\<lambda>b. b) check_Point))"
    by (simp add: check_at_def filter_update_less)
qed

lemma fold_nth_upt: "fold (\<lambda>i. f (xs ! i)) [0..<length xs] = fold f xs"
proof -
  have "fold f (map ((!) xs) [0..<length xs]) = fold (\<lambda>i. f (xs ! i)) [0..<length xs]"
    by (simp add: fold_map comp_def)
  then show ?thesis by (simp add: map_nth)
qed


lemma seed_linelets_eq:
  "seed_linelets geometry st =
   fold (\<lambda>iPoint (LineletPoint, check_Point, iLinelet).
           (LineletPoint[iLinelet := LineletPoint ! iLinelet @ [iPoint]],
            check_Point[iPoint := False], iLinelet + 1))
     (linelet_seeds geometry) st"
proof -
  let ?f = "\<lambda>iPoint (LineletPoint :: nat list list, check_Point :: bool list, iLinelet :: nat).
           (LineletPoint[iLinelet := LineletPoint ! iLinelet @ [iPoint]],
            check_Point[iPoint := False], iLinelet + 1)"
  have inner: "fold (\<lambda>iVertex (LineletPoint, check_Point, iLinelet).
               let iPoint = vs ! iVertex
               in (LineletPoint[iLinelet := LineletPoint ! iLinelet @ [iPoint]],
                   check_Point[iPoint := False], iLinelet + 1)) [0..<length vs]
        = fold ?f vs" for vs
    using fold_nth_upt[of ?f vs] by (simp add: Let_def)
  have "seed_linelets geometry st =
        fold (\<lambda>iMarker. fold ?f (if is_linelet_marker (Marker_All_KindBC geometry ! iMarker)
                             then vertex_GetNode geometry ! iMarker else []))
          [0..<length (Marker_All_KindBC geometry)] st"
    unfolding seed_linelets_def inner
    by (intro fold_cong refl) auto
  then show ?thesis by (simp only: linelet_seeds_def fold_concat_map)
qed

lemma fold_seed_step:
  "fold (\<lambda>iPoint (LineletPoint, check_Point, iLinelet).
           (LineletPoint[iLinelet := LineletPoint ! iLinelet @ [iPoint]],
            check_Point[iPoint := False], iLinelet + 1))
     ss (pre @ replicate (length ss + r) [], c, length pre)
   = (pre @ map (\<lambda>s. [s]) ss @ replicate r [], fold (\<lambda>s c. c[s := False]) ss c,
      length pre + length ss)"
proof (induction ss arbitrary: pre c)
  case Nil
  then show ?case by simp
next
  case (Cons s ss)
  have "(pre @ replicate (length (s # ss) + r) [])
          [length pre := (pre @ replicate (length (s # ss) + r) []) ! length pre @ [s]]
        = (pre @ [[s]]) @ replicate (length ss + r) []"
    by (simp add: list_update_append)
  then show ?case using Cons.IH[of "pre @ [[s]]" "c[s := False]"] by simp
qed

lemma not_check_at_update: "\<not> check_at c p \<Longrightarrow> \<not> check_at (c[s := False]) p"
  by (cases "p = s") (auto simp: check_at_def)

lemma not_check_at_fold:
  "p \<in> set ss \<or> \<not> check_at c p \<Longrightarrow> \<not> check_at (fold (\<lambda>s c. c[s := False]) ss c) p"
proof (induction ss arbitrary: c)
  case Nil
  then show ?case by simp
next
  case (Cons s ss)
  have "p \<in> set ss \<or> \<not> check_at (c[s := False]) p"
    using Cons.prems by (cases "p = s") (auto simp: check_at_def)
  from Cons.IH[OF this] show ?case by simp
qed

lemma grow_linelet_marks:
  "\<not> check_at check_Point p \<Longrightarrow>
   \<not> check_at (snd (grow_linelet fp geometry (linelet, check_Point) index_Point)) p"
proof (induction fp geometry "(linelet, check_Point)" index_Point arbitrary: linelet check_Point
    rule: grow_linelet.induct)
  case (1 fp geometry linelet check_Point index_Point)
  show ?case
  proof (cases "next_linelet_point fp geometry linelet check_Point index_Point")
    case None
    then show ?thesis using "1.prems" by simp
  next
    case (Some next_Point)
    from "1.hyps"[OF Some not_check_at_update[OF "1.prems"]] Some show ?thesis by simp
  qed
qed

text \<open>
  Every linelet starts to grow at a tip: in a matrix that holds no linelets yet,
  when the \<open>k\<close>-th linelet starts, it is its first point alone, and all first
  points are marked.
\<close>

lemma grow_linelets_start:
  assumes "k \<le> length (linelet_seeds geometry)"
    and "seed_linelets geometry (resize (length (linelet_seeds geometry)) [] [], check0, 0)
         = (LP0, c0, n0)"
    and "grow_linelets fp geometry [0..<k] (LP0, c0) = (LP, c)"
  shows "length LP = length (linelet_seeds geometry)
       \<and> (\<forall>i. k \<le> i \<and> i < length LP \<longrightarrow> LP ! i = [linelet_seeds geometry ! i])
       \<and> (\<forall>s\<in>set (linelet_seeds geometry). \<not> check_at c s)"
  using assms(1,3)
proof (induction k arbitrary: LP c)
  case 0
  have "seed_linelets geometry (resize (length (linelet_seeds geometry)) [] [], check0, 0)
      = (map (\<lambda>s. [s]) (linelet_seeds geometry),
         fold (\<lambda>s c. c[s := False]) (linelet_seeds geometry) check0,
         length (linelet_seeds geometry))"
    unfolding seed_linelets_eq resize_def
    using fold_seed_step[of "linelet_seeds geometry" "[]" 0 check0] by simp
  with assms(2) have "LP0 = map (\<lambda>s. [s]) (linelet_seeds geometry)"
    "c0 = fold (\<lambda>s c. c[s := False]) (linelet_seeds geometry) check0" by simp_all
  moreover from 0 have "LP = LP0" "c = c0" by (simp_all add: grow_linelets_def)
  ultimately show ?case by (simp add: not_check_at_fold)
next
  case (Suc k)
  obtain LP' c' where prev: "grow_linelets fp geometry [0..<k] (LP0, c0) = (LP', c')"
    by (cases "grow_linelets fp geometry [0..<k] (LP0, c0)")
  from Suc.IH[OF _ prev] Suc.prems(1)
  have ih: "length LP' = length (linelet_seeds geometry)"
    "\<forall>i. k \<le> i \<and> i < length LP' \<longrightarrow> LP' ! i = [linelet_seeds geometry ! i]"
    "\<forall>s\<in>set (linelet_seeds geometry). \<not> check_at c' s" by simp_all
  obtain l cc where g: "grow_linelet fp geometry (LP' ! k, c') 0 = (l, cc)"
    by (cases "grow_linelet fp geometry (LP' ! k, c') 0")
  have "grow_linelets fp geometry [0..<Suc k] (LP0, c0) = (LP'[k := l], cc)"
    using prev g by (simp add: grow_linelets_def)
  with Suc.prems(2) have LP: "LP = LP'[k := l]" "c = cc" by simp_all
  have "\<not> check_at cc s" if "s \<in> set (linelet_seeds geometry)" for s
    using grow_linelet_marks[of c' s fp geometry "LP' ! k" 0] ih(3) that g by simp
  then show ?case using ih LP by simp
qed

lemma grow_linelets_start_tip_inv:
  assumes "k < length (linelet_seeds geometry)"
    and "seed_linelets geometry (resize (length (linelet_seeds geometry)) [] [], check0, 0)
         = (LP0, c0, n0)"
    and "grow_linelets fp geometry [0..<k] (LP0, c0) = (LP, c)"
  shows "tip_inv (LP ! k) c 0"
proof -
  from grow_linelets_start[OF _ assms(2,3)] assms(1)
  have "LP ! k = [linelet_seeds geometry ! k]" "\<not> check_at c (linelet_seeds geometry ! k)"
    by simp_all
  then show ?thesis by (simp add: tip_inv_def)
qed



lemma entry_wr_same:
  assumes "i < n" "k < n" "r < n" "c < n" "snd q + n * n \<le> length (m (fst q))"
  shows "entry n (wr m q (i * n + k) v) q r c = (if r = i \<and> c = k then v else entry n m q r c)"
proof -
  have lt: "snd q + (i * n + k) < length (m (fst q))"
    using slot_lt[OF assms(1,2)] assms(5) by simp
  show ?thesis
  proof (cases "r = i \<and> c = k")
    case True
    then show ?thesis using lt by (simp add: entry_def rd_def wr_def)
  next
    case False
    then have "r * n + c \<noteq> i * n + k" using block_index_inj[OF assms(4,2)] by blast
    then show ?thesis using False by (auto simp add: entry_def rd_def wr_def)
  qed
qed

lemma entry_wr_other:
  "fst q \<noteq> fst q' \<Longrightarrow> entry n (wr m q x v) q' r c = entry n m q' r c"
  by (simp add: entry_def rd_def wr_def)

lemma wr_frame:
  "b \<noteq> fst q \<Longrightarrow> wr m q x v b = m b"
  by (simp add: wr_def)

lemma length_wr:
  "length (wr m q x v b) = length (m b)"
  by (simp add: wr_def)

lemma fold_upt_invariant:
  assumes "P lo s" "lo \<le> hi"
    and "\<And>i s. lo \<le> i \<Longrightarrow> i < hi \<Longrightarrow> P i s \<Longrightarrow> P (Suc i) (f i s)"
  shows "P hi (fold f [lo..<hi] s)"
  using assms(2,3)
proof (induction hi)
  case 0
  then show ?case using assms(1) by simp
next
  case (Suc hi)
  show ?case
  proof (cases "lo = Suc hi")
    case True
    then show ?thesis using assms(1) by simp
  next
    case False
    then have le: "lo \<le> hi" using Suc.prems(1) by simp
    have "P hi (fold f [lo..<hi] s)"
      by (rule Suc.IH[OF le]) (use Suc.prems(2) in simp)
    then have "P (Suc hi) (f hi (fold f [lo..<hi] s))"
      using Suc.prems(2)[OF le] by simp
    then show ?thesis using le by simp
  qed
qed

lemma fold_rev_upt_invariant:
  assumes "P n s"
    and "\<And>i s. i < n \<Longrightarrow> P (Suc i) s \<Longrightarrow> P i (f i s)"
  shows "P 0 (fold f (rev [0..<n]) s)"
  using assms
proof (induction n arbitrary: s)
  case 0
  then show ?case by simp
next
  case (Suc n)
  have "P n (f n s)" using Suc.prems by simp
  then have "P 0 (fold f (rev [0..<n]) (f n s))"
    by (rule Suc.IH) (use Suc.prems(2) in simp)
  then show ?case by simp
qed

text \<open>
  One loop over the columns of row \<open>i\<close> that subtracts a multiple of row \<open>j\<close>.
\<close>

lemma row_axpy:
  fixes m :: "('a::{minus,times}) memory" and lo :: nat
  assumes "i < n" "j < n" "i \<noteq> j" "hi \<le> n" "snd q + n * n \<le> length (m (fst q))"
    and W: "\<And>m' x v. W (wr m' q x v) = W m'"
  defines "m' \<equiv> fold (\<lambda>k m. wr m q (i * n + k)
                     (rd m q (i * n + k) - W m * rd m q (j * n + k))) [lo..<hi] m"
  shows "(\<forall>r<n. \<forall>c<n. entry n m' q r c =
            (if r = i \<and> lo \<le> c \<and> c < hi then entry n m q i c - W m * entry n m q j c
             else entry n m q r c))
       \<and> (\<forall>b. b \<noteq> fst q \<longrightarrow> m' b = m b) \<and> length (m' (fst q)) = length (m (fst q))
       \<and> W m' = W m"
proof (cases "lo \<le> hi")
  case False
  then show ?thesis by (auto simp add: m'_def)
next
  case True
  define step where "step = (\<lambda>k (m :: 'a memory). wr m q (i * n + k)
                     (rd m q (i * n + k) - W m * rd m q (j * n + k)))"
  define P where "P = (\<lambda>h (m1 :: 'a memory).
     (\<forall>r<n. \<forall>c<n. entry n m1 q r c =
            (if r = i \<and> lo \<le> c \<and> c < h then entry n m q i c - W m * entry n m q j c
             else entry n m q r c))
       \<and> (\<forall>b. b \<noteq> fst q \<longrightarrow> m1 b = m b) \<and> length (m1 (fst q)) = length (m (fst q))
       \<and> W m1 = W m)"
  have "P hi (fold step [lo..<hi] m)"
  proof (rule fold_upt_invariant[where P = P, OF _ True])
    show "P lo m" by (auto simp add: P_def)
  next
    fix k and m1 :: "'a memory"
    assume k: "lo \<le> k" "k < hi" and P: "P k m1"
    have kn: "k < n" using k assms(4) by simp
    have len: "snd q + n * n \<le> length (m1 (fst q))" using P assms(5) by (simp add: P_def)
    have e: "entry n (step k m1) q r c =
               (if r = i \<and> c = k then entry n m1 q i k - W m1 * entry n m1 q j k
                else entry n m1 q r c)" if "r < n" "c < n" for r c
      unfolding step_def using entry_wr_same[where m = m1 and q = q, OF assms(1) kn that len]
      by (simp add: entry_def)
    have vi: "entry n m1 q i k = entry n m q i k" using P kn assms(1) by (simp add: P_def)
    have vj: "entry n m1 q j k = entry n m q j k" using P kn assms(2,3) by (simp add: P_def)
    have Wm: "W m1 = W m" using P by (simp add: P_def)
    show "P (Suc k) (step k m1)"
      unfolding P_def
    proof (intro conjI allI impI)
      fix r c assume rc: "r < n" "c < n"
      show "entry n (step k m1) q r c =
         (if r = i \<and> lo \<le> c \<and> c < Suc k then entry n m q i c - W m * entry n m q j c
          else entry n m q r c)"
      proof (cases "r = i \<and> c = k")
        case True
        then show ?thesis using e[OF rc] vi vj Wm k by simp
      next
        case False
        then have "entry n (step k m1) q r c = entry n m1 q r c" using e[OF rc] by auto
        also have "\<dots> = (if r = i \<and> lo \<le> c \<and> c < k then entry n m q i c - W m * entry n m q j c
             else entry n m q r c)" using P rc by (simp add: P_def)
        finally show ?thesis using False by (auto simp: less_Suc_eq)
      qed
    next
      fix b assume "b \<noteq> fst q"
      then show "step k m1 b = m b" using P by (simp add: P_def step_def wr_def)
    next
      show "length (step k m1 (fst q)) = length (m (fst q))"
        using P by (simp add: P_def step_def wr_def)
    next
      show "W (step k m1) = W m" using Wm by (simp add: step_def W)
    qed
  qed
  then show ?thesis unfolding P_def m'_def step_def .
qed

text \<open>
  One loop over the columns of row \<open>i\<close> that divides the row.
\<close>

lemma row_scale:
  fixes m :: "('a::inverse) memory"
  assumes "i < n" "hi \<le> n" "snd q + n * n \<le> length (m (fst q))"
    and W: "\<And>m' x v. W (wr m' q x v) = W m'"
  defines "m' \<equiv> fold (\<lambda>k m. wr m q (i * n + k) (rd m q (i * n + k) / W m)) [0..<hi] m"
  shows "(\<forall>r<n. \<forall>c<n. entry n m' q r c =
            (if r = i \<and> c < hi then entry n m q i c / W m else entry n m q r c))
       \<and> (\<forall>b. b \<noteq> fst q \<longrightarrow> m' b = m b) \<and> length (m' (fst q)) = length (m (fst q))
       \<and> W m' = W m"
proof -
  define step where "step = (\<lambda>k (m :: 'a memory). wr m q (i * n + k) (rd m q (i * n + k) / W m))"
  define P where "P = (\<lambda>h (m1 :: 'a memory).
     (\<forall>r<n. \<forall>c<n. entry n m1 q r c =
            (if r = i \<and> c < h then entry n m q i c / W m else entry n m q r c))
       \<and> (\<forall>b. b \<noteq> fst q \<longrightarrow> m1 b = m b) \<and> length (m1 (fst q)) = length (m (fst q))
       \<and> W m1 = W m)"
  have "P hi (fold step [0..<hi] m)"
  proof (rule fold_upt_invariant[where P = P and lo = 0])
    show "P 0 m" by (auto simp add: P_def)
  next
    show "0 \<le> hi" by simp
  next
    fix k and m1 :: "'a memory"
    assume k: "0 \<le> k" "k < hi" and P: "P k m1"
    have kn: "k < n" using k assms(2) by simp
    have len: "snd q + n * n \<le> length (m1 (fst q))" using P assms(3) by (simp add: P_def)
    have e: "entry n (step k m1) q r c =
               (if r = i \<and> c = k then entry n m1 q i k / W m1 else entry n m1 q r c)"
      if "r < n" "c < n" for r c
      unfolding step_def using entry_wr_same[where m = m1 and q = q, OF assms(1) kn that len]
      by (simp add: entry_def)
    have vi: "entry n m1 q i k = entry n m q i k" using P kn assms(1) by (simp add: P_def)
    have Wm: "W m1 = W m" using P by (simp add: P_def)
    show "P (Suc k) (step k m1)"
      unfolding P_def
    proof (intro conjI allI impI)
      fix r c assume rc: "r < n" "c < n"
      show "entry n (step k m1) q r c =
         (if r = i \<and> c < Suc k then entry n m q i c / W m else entry n m q r c)"
      proof (cases "r = i \<and> c = k")
        case True
        then show ?thesis using e[OF rc] vi Wm k by simp
      next
        case False
        then have "entry n (step k m1) q r c = entry n m1 q r c" using e[OF rc] by auto
        also have "\<dots> = (if r = i \<and> c < k then entry n m q i c / W m else entry n m q r c)"
          using P rc by (simp add: P_def)
        finally show ?thesis using False by (auto simp: less_Suc_eq)
      qed
    next
      fix b assume "b \<noteq> fst q"
      then show "step k m1 b = m b" using P by (simp add: P_def step_def wr_def)
    next
      show "length (step k m1 (fst q)) = length (m (fst q))"
        using P by (simp add: P_def step_def wr_def)
    next
      show "W (step k m1) = W m" using Wm by (simp add: step_def W)
    qed
  qed
  then show ?thesis unfolding P_def m'_def step_def .
qed

lemma entry_cong_buf:
  "m' (fst q) = m (fst q) \<Longrightarrow> entry n m' q r c = entry n m q r c"
  by (simp add: entry_def rd_def)

text \<open>
  One step of the copy loop.
\<close>

lemma copy_step:
  fixes m :: "('a::{zero,one}) memory"
  assumes "fst p \<noteq> B_block" "n * n \<le> length (m B_block)" "snd p + n * n \<le> length (m (fst p))"
    and "matrix = p \<or> (fst matrix \<noteq> fst p \<and> fst matrix \<noteq> B_block)"
    and "i < n" "k < n" "r < n" "c < n"
  defines "m' \<equiv> wr (wr m (B_block, 0) (i * n + k) (rd m matrix (i * n + k)))
                    p (i * n + k) (if i = k then 1 else 0)"
  shows "entry n m' (B_block, 0) r c =
           (if r = i \<and> c = k then entry n m matrix i k else entry n m (B_block, 0) r c)"
    and "entry n m' p r c = (if r = i \<and> c = k then (if i = k then 1 else 0) else entry n m p r c)"
    and "\<not> (r = i \<and> c = k) \<Longrightarrow> entry n m' matrix r c = entry n m matrix r c"
proof -
  define m1 where "m1 = wr m (B_block, 0) (i * n + k) (rd m matrix (i * n + k))"
  have m': "m' = wr m1 p (i * n + k) (if i = k then 1 else 0)" by (simp add: m'_def m1_def)
  have len1: "snd p + n * n \<le> length (m1 (fst p))" using assms(3) by (simp add: m1_def length_wr)
  have lenb: "snd (B_block, 0 :: nat) + n * n \<le> length (m (fst (B_block, 0 :: nat)))"
    using assms(2) by simp
  have b1: "entry n m1 (B_block, 0) r c =
           (if r = i \<and> c = k then entry n m matrix i k else entry n m (B_block, 0) r c)"
    unfolding m1_def
    using entry_wr_same[where m = m and q = "(B_block, 0)", OF assms(5,6,7,8) lenb]
    by (simp add: entry_def)
  have "entry n m' (B_block, 0) r c = entry n m1 (B_block, 0) r c"
    unfolding m' by (rule entry_wr_other) (use assms(1) in simp)
  with b1 show "entry n m' (B_block, 0) r c =
           (if r = i \<and> c = k then entry n m matrix i k else entry n m (B_block, 0) r c)"
    by simp
  have p1: "entry n m1 p r c = entry n m p r c"
    unfolding m1_def by (rule entry_wr_other) (use assms(1) in simp)
  have p2: "entry n m' p r c = (if r = i \<and> c = k then (if i = k then 1 else 0) else entry n m1 p r c)"
    unfolding m' by (rule entry_wr_same[where m = m1 and q = p, OF assms(5,6,7,8) len1])
  from p1 p2 show "entry n m' p r c =
      (if r = i \<and> c = k then (if i = k then 1 else 0) else entry n m p r c)"
    by simp
  show "entry n m' matrix r c = entry n m matrix r c" if "\<not> (r = i \<and> c = k)"
  proof (cases "matrix = p")
    case True
    then show ?thesis using p1 p2 that by auto
  next
    case False
    with assms(4) have d: "fst matrix \<noteq> fst p" "fst matrix \<noteq> B_block" by auto
    have "entry n m' matrix r c = entry n m1 matrix r c"
      unfolding m' by (rule entry_wr_other) (use d in simp)
    also have "\<dots> = entry n m matrix r c"
      unfolding m1_def by (rule entry_wr_other) (use d in simp)
    finally show ?thesis .
  qed
qed

lemma MatrixInverse_copy_entries:
  fixes m :: "('a::{zero,one}) memory"
  assumes "fst p \<noteq> B_block" "n * n \<le> length (m B_block)" "snd p + n * n \<le> length (m (fst p))"
    and "matrix = p \<or> (fst matrix \<noteq> fst p \<and> fst matrix \<noteq> B_block)"
  defines "m1 \<equiv> MatrixInverse_copy n matrix p m"
  shows "(\<forall>r<n. \<forall>c<n. entry n m1 (B_block, 0) r c = entry n m matrix r c
                      \<and> entry n m1 p r c = (if r = c then 1 else 0))
       \<and> length (m1 B_block) = length (m B_block) \<and> length (m1 (fst p)) = length (m (fst p))"
proof -
  define A where "A = entry n m matrix"
  define Done where "Done = (\<lambda>i k (s :: 'a memory).
     length (s B_block) = length (m B_block) \<and> length (s (fst p)) = length (m (fst p)) \<and>
     (\<forall>r<n. \<forall>c<n.
        ((r < i \<or> (r = i \<and> c < k)) \<longrightarrow>
            entry n s (B_block, 0) r c = A r c \<and> entry n s p r c = (if r = c then 1 else 0))
      \<and> (\<not> (r < i \<or> (r = i \<and> c < k)) \<longrightarrow> entry n s matrix r c = A r c)))"
  define body where "body = (\<lambda>iVar jVar (m :: 'a memory).
        wr (wr m (B_block, 0) (iVar * n + jVar) (rd m matrix (iVar * n + jVar)))
           p (iVar * n + jVar) (if iVar = jVar then 1 else 0))"
  have inner: "Done (Suc i) 0 (fold (body i) [0..<n] s)" if "i < n" "Done i 0 s" for i s
  proof -
    have "Done i n (fold (body i) [0..<n] s)"
    proof (rule fold_upt_invariant[where P = "Done i" and lo = 0])
      show "Done i 0 s" by (rule that)
    next
      show "0 \<le> n" by simp
    next
      fix k and s1 :: "'a memory"
      assume k: "0 \<le> k" "k < n" and D: "Done i k s1"
      have l1: "n * n \<le> length (s1 B_block)" "snd p + n * n \<le> length (s1 (fst p))"
        using D assms(2,3) by (simp_all add: Done_def)
      note st = copy_step[where m = s1, OF assms(1) l1 assms(4) \<open>i < n\<close> \<open>k < n\<close>]
      show "Done i (Suc k) (body i k s1)"
        unfolding Done_def
      proof (intro conjI allI impI)
        show "length (body i k s1 B_block) = length (m B_block)"
          using D by (simp add: body_def length_wr Done_def)
        show "length (body i k s1 (fst p)) = length (m (fst p))"
          using D by (simp add: body_def length_wr Done_def)
      next
        fix r c assume rc: "r < n" "c < n" and d: "r < i \<or> r = i \<and> c < Suc k"
        show "entry n (body i k s1) (B_block, 0) r c = A r c"
        proof (cases "r = i \<and> c = k")
          case True
          have "entry n s1 matrix i k = A i k" using D \<open>i < n\<close> \<open>k < n\<close> by (auto simp: Done_def)
          then show ?thesis using st(1)[OF rc] True by (simp add: body_def)
        next
          case False
          then have "r < i \<or> r = i \<and> c < k" using d by auto
          then have "entry n s1 (B_block, 0) r c = A r c" using D rc by (auto simp: Done_def)
          then show ?thesis using st(1)[OF rc] False by (auto simp add: body_def)
        qed
        show "entry n (body i k s1) p r c = (if r = c then 1 else 0)"
        proof (cases "r = i \<and> c = k")
          case True
          then show ?thesis using st(2)[OF rc] by (simp add: body_def)
        next
          case False
          then have "r < i \<or> r = i \<and> c < k" using d by auto
          then have "entry n s1 p r c = (if r = c then 1 else 0)"
            using D rc by (auto simp: Done_def)
          then show ?thesis using st(2)[OF rc] False by (auto simp add: body_def)
        qed
      next
        fix r c assume rc: "r < n" "c < n" and d: "\<not> (r < i \<or> r = i \<and> c < Suc k)"
        then have ne: "\<not> (r = i \<and> c = k)" and d': "\<not> (r < i \<or> r = i \<and> c < k)" by auto
        have "entry n s1 matrix r c = A r c" using D rc d' by (auto simp: Done_def)
        then show "entry n (body i k s1) matrix r c = A r c"
          using st(3)[OF rc ne] by (simp add: body_def)
      qed
    qed
    then show ?thesis by (auto simp: Done_def less_Suc_eq)
  qed
  have "Done n 0 (fold (\<lambda>i. fold (body i) [0..<n]) [0..<n] m)"
  proof (rule fold_upt_invariant[where P = "\<lambda>i. Done i 0" and lo = 0])
    show "Done 0 0 m" by (simp add: Done_def A_def)
  next
    show "0 \<le> n" by simp
  next
    fix i and s :: "'a memory"
    assume "0 \<le> i" "i < n" "Done i 0 s"
    then show "Done (Suc i) 0 (fold (body i) [0..<n] s)" using inner by simp
  qed
  moreover have "m1 = fold (\<lambda>i. fold (body i) [0..<n]) [0..<n] m"
    unfolding m1_def MatrixInverse_copy_def body_def ..
  ultimately show ?thesis by (simp add: Done_def A_def)
qed

text \<open>
  One step of the elimination: the multiple \<open>weight\<close> of row \<open>j\<close> is taken off row \<open>i\<close>,
  in \<open>block\<close> from column \<open>j\<close> on and in \<open>inverse\<close> up to column \<open>j\<close>.
\<close>

lemma eliminate_step:
  fixes m :: "('a::{minus,times,inverse}) memory"
  assumes "fst p \<noteq> B_block" "n * n \<le> length (m B_block)" "snd p + n * n \<le> length (m (fst p))"
    and "j < i" "i < n"
  defines "w \<equiv> entry n m (B_block, 0) i j / entry n m (B_block, 0) j j"
  defines "m' \<equiv>
    (let weight = rd m (B_block, 0) (i * n + j) / rd m (B_block, 0) (j * n + j);
         m = fold (\<lambda>kVar m. wr m (B_block, 0) (i * n + kVar)
                (rd m (B_block, 0) (i * n + kVar) - weight * rd m (B_block, 0) (j * n + kVar)))
               [j..<n] m
     in fold (\<lambda>kVar m. wr m p (i * n + kVar)
                (rd m p (i * n + kVar) - weight * rd m p (j * n + kVar)))
          [0..<j + 1] m)"
  shows "(\<forall>r<n. \<forall>c<n.
            entry n m' (B_block, 0) r c =
              (if r = i \<and> j \<le> c then entry n m (B_block, 0) i c - w * entry n m (B_block, 0) j c
               else entry n m (B_block, 0) r c) \<and>
            entry n m' p r c =
              (if r = i \<and> c \<le> j then entry n m p i c - w * entry n m p j c
               else entry n m p r c))
       \<and> length (m' B_block) = length (m B_block) \<and> length (m' (fst p)) = length (m (fst p))"
proof -
  define mid where "mid = fold (\<lambda>kVar m. wr m (B_block, 0) (i * n + kVar)
                (rd m (B_block, 0) (i * n + kVar) - w * rd m (B_block, 0) (j * n + kVar)))
               [j..<n] m"
  have m'_eq: "m' = fold (\<lambda>kVar m. wr m p (i * n + kVar)
                (rd m p (i * n + kVar) - w * rd m p (j * n + kVar))) [0..<j + 1] mid"
    unfolding m'_def Let_def mid_def w_def entry_def ..
  have jn: "j < n" "i \<noteq> j" "j + 1 \<le> n" using assms(4,5) by simp_all
  have lenb: "snd (B_block, 0 :: nat) + n * n \<le> length (m (fst (B_block, 0 :: nat)))"
    using assms(2) by simp
  from row_axpy[where q = "(B_block, 0)" and W = "\<lambda>_. w" and m = m and lo = j and hi = n,
      OF assms(5) jn(1,2) le_refl lenb]
  have b1: "\<forall>r<n. \<forall>c<n. entry n mid (B_block, 0) r c =
            (if r = i \<and> j \<le> c \<and> c < n
             then entry n m (B_block, 0) i c - w * entry n m (B_block, 0) j c
             else entry n m (B_block, 0) r c)"
    and f1: "\<forall>b. b \<noteq> B_block \<longrightarrow> mid b = m b"
    and l1: "length (mid B_block) = length (m B_block)"
    by (simp_all add: mid_def)
  have midp: "mid (fst p) = m (fst p)" using f1 assms(1) by simp
  have lenp: "snd p + n * n \<le> length (mid (fst p))" using midp assms(3) by simp
  from row_axpy[where q = p and W = "\<lambda>_. w" and m = mid and lo = 0 and hi = "j + 1",
      OF assms(5) jn(1,2,3) lenp]
  have p2: "\<forall>r<n. \<forall>c<n. entry n m' p r c =
            (if r = i \<and> 0 \<le> c \<and> c < j + 1
             then entry n mid p i c - w * entry n mid p j c
             else entry n mid p r c)"
    and f2: "\<forall>b. b \<noteq> fst p \<longrightarrow> m' b = mid b"
    and l2: "length (m' (fst p)) = length (mid (fst p))"
    by (simp_all add: m'_eq)
  have m'b: "m' B_block = mid B_block" using f2 assms(1) by simp
  have eb: "entry n m' (B_block, 0) r c = entry n mid (B_block, 0) r c" for r c
    by (rule entry_cong_buf) (simp add: m'b)
  have ep: "entry n mid p r c = entry n m p r c" for r c
    by (rule entry_cong_buf) (simp add: midp)
  show ?thesis
    using b1 p2 l1 l2 m'b midp by (auto simp: eb ep)
qed

lemma sum_delta_row:
  fixes A :: "nat \<Rightarrow> nat \<Rightarrow> 'a::field"
  assumes "r < n"
  shows "(\<Sum>t<n. (if r = t then 1 else 0) * A t c) = A r c"
proof -
  have "(\<Sum>t<n. (if r = t then 1 else 0) * A t c) = (\<Sum>t<n. if t = r then A t c else 0)"
    by (rule sum.cong) auto
  also have "\<dots> = A r c" using assms by (simp add: sum.delta)
  finally show ?thesis .
qed

lemma sum_delta_col:
  fixes A :: "nat \<Rightarrow> nat \<Rightarrow> 'a::field"
  assumes "c < n"
  shows "(\<Sum>t<n. A r t * (if t = c then 1 else 0)) = A r c"
proof -
  have "(\<Sum>t<n. A r t * (if t = c then 1 else 0)) = (\<Sum>t<n. if t = c then A r t else 0)"
    by (rule sum.cong) auto
  also have "\<dots> = A r c" using assms by (simp add: sum.delta)
  finally show ?thesis .
qed

lemma elim_inv_init:
  fixes A :: "nat \<Rightarrow> nat \<Rightarrow> 'a::field"
  assumes "\<forall>r<n. \<forall>c<n. B r c = A r c \<and> V r c = (if r = c then 1 else 0)"
  shows "elim_inv n A 1 0 B V"
  unfolding elim_inv_def
proof (intro conjI allI impI)
  fix r c assume rc: "r < n" "c < n"
  have "(\<Sum>t<n. V r t * A t c) = (\<Sum>t<n. (if r = t then 1 else 0) * A t c)"
    by (rule sum.cong) (use assms rc in auto)
  also have "\<dots> = A r c" by (rule sum_delta_row[OF rc(1)])
  finally show "(\<Sum>t<n. V r t * A t c) = B r c" using assms rc by simp
qed (use assms in auto)

lemma elim_inv_step:
  fixes A :: "nat \<Rightarrow> nat \<Rightarrow> 'a::field"
  assumes inv: "elim_inv n A i j B V" and ji: "j < i" "i < n" and piv: "B j j \<noteq> 0"
    and B': "\<forall>r<n. \<forall>c<n. B' r c = (if r = i \<and> j \<le> c then B i c - w * B j c else B r c)"
    and V': "\<forall>r<n. \<forall>c<n. V' r c = (if r = i \<and> c \<le> j then V i c - w * V j c else V r c)"
    and w: "w = B i j / B j j"
  shows "elim_inv n A i (Suc j) B' V'"
proof -
  have jn: "j < n" using ji by simp
  from inv have prod: "\<forall>r<n. \<forall>c<n. (\<Sum>t<n. V r t * A t c) = B r c"
    and low: "\<forall>r<n. \<forall>c<n. r < c \<longrightarrow> V r c = 0"
    and diag: "\<forall>r<n. V r r = 1"
    and tri: "\<forall>r<n. \<forall>c<n. r < i \<longrightarrow> c < r \<longrightarrow> B r c = 0"
    and rowi: "\<forall>c<j. B i c = 0"
    by (simp_all add: elim_inv_def)
  have Vi: "V' i t = V i t - w * V j t" if "t < n" for t
  proof (cases "t \<le> j")
    case True
    then show ?thesis using V' ji(2) that by simp
  next
    case False
    then have "V j t = 0" using low jn that by simp
    then show ?thesis using V' ji(2) that False by simp
  qed
  have Bi: "B' i c = B i c - w * B j c" if "c < n" for c
  proof (cases "j \<le> c")
    case True
    then show ?thesis using B' ji(2) that by simp
  next
    case False
    then have "B i c = 0" "B j c = 0" using rowi tri jn ji(1) that by simp_all
    then show ?thesis using B' ji(2) that False by simp
  qed
  show ?thesis
    unfolding elim_inv_def
  proof (intro conjI allI impI)
    fix r c assume rc: "r < n" "c < n"
    show "(\<Sum>t<n. V' r t * A t c) = B' r c"
    proof (cases "r = i")
      case True
      have "(\<Sum>t<n. V' i t * A t c) = (\<Sum>t<n. V i t * A t c - w * (V j t * A t c))"
        by (rule sum.cong) (simp_all add: Vi algebra_simps)
      also have "\<dots> = (\<Sum>t<n. V i t * A t c) - w * (\<Sum>t<n. V j t * A t c)"
        by (simp add: sum_subtractf sum_distrib_left)
      also have "\<dots> = B i c - w * B j c" using prod ji(2) jn rc(2) by simp
      finally show ?thesis using True Bi[OF rc(2)] by simp
    next
      case False
      have "(\<Sum>t<n. V' r t * A t c) = (\<Sum>t<n. V r t * A t c)"
        by (rule sum.cong) (use V' rc(1) False in auto)
      then show ?thesis using prod B' rc False by simp
    qed
  next
    fix r c assume rc: "r < n" "c < n" "r < c"
    show "V' r c = 0" using V' low rc ji by auto
  next
    fix r assume "r < n"
    then show "V' r r = 1" using V' diag ji by auto
  next
    fix r c assume "r < n" "c < n" "r < i" "c < r"
    then show "B' r c = 0" using B' tri by auto
  next
    fix c assume c: "c < Suc j"
    then have cn: "c < n" using jn by simp
    show "B' i c = 0"
    proof (cases "c = j")
      case True
      then show ?thesis using Bi[OF cn] w piv by simp
    next
      case False
      then have "c < j" using c by simp
      then have "B i c = 0" "B j c = 0" using rowi tri jn ji(1) cn by simp_all
      then show ?thesis using Bi[OF cn] by simp
    qed
  qed
qed

lemma elim_inv_next_row:
  "elim_inv n A i i B V \<Longrightarrow> elim_inv n A (Suc i) 0 B V"
  unfolding elim_inv_def by (auto simp: less_Suc_eq)

lemma MatrixInverse_eliminate_inv:
  fixes m1 :: "('a::field) memory"
  assumes ne: "fst p \<noteq> B_block"
    and len: "n * n \<le> length (m1 B_block)" "snd p + n * n \<le> length (m1 (fst p))"
    and init: "\<forall>r<n. \<forall>c<n. entry n m1 (B_block, 0) r c = A r c \<and>
                            entry n m1 p r c = (if r = c then 1 else 0)"
    and piv: "\<forall>j<n. entry n (MatrixInverse_eliminate n p m1) (B_block, 0) j j \<noteq> 0"
  shows "elim_inv n A n 0 (entry n (MatrixInverse_eliminate n p m1) (B_block, 0))
           (entry n (MatrixInverse_eliminate n p m1) p)
       \<and> length (MatrixInverse_eliminate n p m1 B_block) = length (m1 B_block)
       \<and> length (MatrixInverse_eliminate n p m1 (fst p)) = length (m1 (fst p))"
proof (cases "n = 0")
  case True
  then show ?thesis by (simp add: MatrixInverse_eliminate_def elim_inv_def)
next
  case False
  then have n1: "1 \<le> n" by simp
  define istep where "istep = (\<lambda>i j (m :: 'a memory).
    (let weight = rd m (B_block, 0) (i * n + j) / rd m (B_block, 0) (j * n + j);
         m = fold (\<lambda>kVar m. wr m (B_block, 0) (i * n + kVar)
                (rd m (B_block, 0) (i * n + kVar) - weight * rd m (B_block, 0) (j * n + kVar)))
               [j..<n] m
     in fold (\<lambda>kVar m. wr m p (i * n + kVar)
                (rd m p (i * n + kVar) - weight * rd m p (j * n + kVar)))
          [0..<j + 1] m))"
  have run: "MatrixInverse_eliminate n p m1 = fold (\<lambda>i. fold (istep i) [0..<i]) [1..<n] m1"
    unfolding MatrixInverse_eliminate_def istep_def ..
  define L where "L = (\<lambda>s :: 'a memory.
     length (s B_block) = length (m1 B_block) \<and> length (s (fst p)) = length (m1 (fst p)))"
  define P where "P = (\<lambda>i (s :: 'a memory). L s \<and>
     ((\<forall>j<i. entry n s (B_block, 0) j j \<noteq> 0) \<longrightarrow>
        elim_inv n A i 0 (entry n s (B_block, 0)) (entry n s p)))"
  have outer: "P (Suc i) (fold (istep i) [0..<i] s)" if i: "1 \<le> i" "i < n" and Ps: "P i s" for i s
  proof -
    define Q where "Q = (\<lambda>j (s' :: 'a memory). L s' \<and>
       (\<forall>r<n. r \<noteq> i \<longrightarrow> (\<forall>c<n. entry n s' (B_block, 0) r c = entry n s (B_block, 0) r c)) \<and>
       ((\<forall>j'<i. entry n s (B_block, 0) j' j' \<noteq> 0) \<longrightarrow>
          elim_inv n A i j (entry n s' (B_block, 0)) (entry n s' p)))"
    have "Q i (fold (istep i) [0..<i] s)"
    proof (rule fold_upt_invariant[where P = Q and lo = 0])
      show "Q 0 s" using Ps by (simp add: Q_def P_def)
    next
      show "0 \<le> i" by simp
    next
      fix j and s' :: "'a memory"
      assume j: "0 \<le> j" "j < i" and Qs: "Q j s'"
      have l': "n * n \<le> length (s' B_block)" "snd p + n * n \<le> length (s' (fst p))"
        using Qs len by (simp_all add: Q_def L_def)
      have st: "(\<forall>r<n. \<forall>c<n.
            entry n (istep i j s') (B_block, 0) r c =
              (if r = i \<and> j \<le> c
               then entry n s' (B_block, 0) i c
                    - entry n s' (B_block, 0) i j / entry n s' (B_block, 0) j j
                      * entry n s' (B_block, 0) j c
               else entry n s' (B_block, 0) r c) \<and>
            entry n (istep i j s') p r c =
              (if r = i \<and> c \<le> j
               then entry n s' p i c
                    - entry n s' (B_block, 0) i j / entry n s' (B_block, 0) j j * entry n s' p j c
               else entry n s' p r c))
       \<and> length (istep i j s' B_block) = length (s' B_block)
       \<and> length (istep i j s' (fst p)) = length (s' (fst p))"
        unfolding istep_def by (rule eliminate_step[OF ne l' j(2) i(2)])
      show "Q (Suc j) (istep i j s')"
        unfolding Q_def
      proof (intro conjI allI impI)
        show "L (istep i j s')" using st Qs by (simp add: L_def Q_def)
      next
        fix r c assume "r < n" "r \<noteq> i" "c < n"
        then show "entry n (istep i j s') (B_block, 0) r c = entry n s (B_block, 0) r c"
          using st Qs by (simp add: Q_def)
      next
        assume pv: "\<forall>j'<i. entry n s (B_block, 0) j' j' \<noteq> 0"
        then have inv: "elim_inv n A i j (entry n s' (B_block, 0)) (entry n s' p)"
          using Qs by (simp add: Q_def)
        have "entry n s' (B_block, 0) j j = entry n s (B_block, 0) j j"
          using Qs j(2) i(2) by (simp add: Q_def)
        then have pj: "entry n s' (B_block, 0) j j \<noteq> 0" using pv j(2) by simp
        show "elim_inv n A i (Suc j) (entry n (istep i j s') (B_block, 0)) (entry n (istep i j s') p)"
          by (rule elim_inv_step[OF inv j(2) i(2) pj _ _ refl]) (use st in simp_all)
      qed
    qed
    then have Qi: "L (fold (istep i) [0..<i] s)"
      "\<forall>r<n. r \<noteq> i \<longrightarrow> (\<forall>c<n. entry n (fold (istep i) [0..<i] s) (B_block, 0) r c
                                  = entry n s (B_block, 0) r c)"
      "(\<forall>j'<i. entry n s (B_block, 0) j' j' \<noteq> 0) \<longrightarrow>
          elim_inv n A i i (entry n (fold (istep i) [0..<i] s) (B_block, 0))
            (entry n (fold (istep i) [0..<i] s) p)"
      by (simp_all add: Q_def)
    show ?thesis
      unfolding P_def
    proof (intro conjI impI)
      show "L (fold (istep i) [0..<i] s)" by (rule Qi(1))
    next
      assume pv: "\<forall>j<Suc i. entry n (fold (istep i) [0..<i] s) (B_block, 0) j j \<noteq> 0"
      have "\<forall>j'<i. entry n s (B_block, 0) j' j' \<noteq> 0"
      proof (intro allI impI)
        fix j' assume j': "j' < i"
        then have "entry n (fold (istep i) [0..<i] s) (B_block, 0) j' j' = entry n s (B_block, 0) j' j'"
          using Qi(2) i(2) by simp
        moreover have "entry n (fold (istep i) [0..<i] s) (B_block, 0) j' j' \<noteq> 0"
          using pv j' by simp
        ultimately show "entry n s (B_block, 0) j' j' \<noteq> 0" by simp
      qed
      with Qi(3) show "elim_inv n A (Suc i) 0 (entry n (fold (istep i) [0..<i] s) (B_block, 0))
            (entry n (fold (istep i) [0..<i] s) p)"
        by (intro elim_inv_next_row) simp
    qed
  qed
  have "P n (fold (\<lambda>i. fold (istep i) [0..<i]) [1..<n] m1)"
  proof (rule fold_upt_invariant[where P = P and lo = 1, OF _ n1])
    show "P 1 m1" using elim_inv_init[OF init] by (simp add: P_def L_def)
  next
    fix i and s :: "'a memory"
    assume "1 \<le> i" "i < n" "P i s"
    then show "P (Suc i) (fold (istep i) [0..<i] s)" by (rule outer)
  qed
  then show ?thesis using piv by (simp add: run P_def L_def)
qed

text \<open>
  One row of the backward substitution.
\<close>

lemma substitute_row:
  fixes m :: "('a::field) memory"
  assumes ne: "fst p \<noteq> B_block" and len: "snd p + n * n \<le> length (m (fst p))" and i: "i < n"
  defines "m' \<equiv>
    (let m = fold (\<lambda>jVar. fold (\<lambda>kVar m. wr m p (i * n + kVar)
                   (rd m p (i * n + kVar)
                      - rd m (B_block, 0) (i * n + jVar) * rd m p (jVar * n + kVar)))
                  [0..<n]) [i + 1..<n] m
     in fold (\<lambda>kVar m. wr m p (i * n + kVar)
                   (rd m p (i * n + kVar) / rd m (B_block, 0) (i * n + i)))
             [0..<n] m)"
  shows "(\<forall>r<n. \<forall>c<n. entry n m' p r c =
            (if r = i
             then (entry n m p i c
                    - (\<Sum>t\<in>{i + 1..<n}. entry n m (B_block, 0) i t * entry n m p t c))
                  / entry n m (B_block, 0) i i
             else entry n m p r c))
       \<and> m' B_block = m B_block \<and> length (m' (fst p)) = length (m (fst p))"
proof -
  define jstep where "jstep = (\<lambda>jVar. fold (\<lambda>kVar (m :: 'a memory). wr m p (i * n + kVar)
                   (rd m p (i * n + kVar)
                      - rd m (B_block, 0) (i * n + jVar) * rd m p (jVar * n + kVar)))
                  [0..<n])"
  define mid where "mid = fold jstep [i + 1..<n] m"
  have m'_eq: "m' = fold (\<lambda>kVar m. wr m p (i * n + kVar)
                   (rd m p (i * n + kVar) / rd m (B_block, 0) (i * n + i))) [0..<n] mid"
    unfolding m'_def Let_def mid_def jstep_def ..
  define T where "T = (\<lambda>j (s :: 'a memory).
     s B_block = m B_block \<and> length (s (fst p)) = length (m (fst p)) \<and>
     (\<forall>r<n. \<forall>c<n. entry n s p r c =
        (if r = i
         then entry n m p i c - (\<Sum>t\<in>{i + 1..<j}. entry n m (B_block, 0) i t * entry n m p t c)
         else entry n m p r c)))"
  have Wb: "rd (wr m' p x v) (B_block, 0) y = rd m' (B_block, 0) y" for m' :: "'a memory" and x v y
    using ne by (simp add: rd_def wr_def)
  have "T n mid"
    unfolding mid_def
  proof (rule fold_upt_invariant[where P = T and lo = "i + 1"])
    show "T (i + 1) m" by (simp add: T_def)
  next
    show "i + 1 \<le> n" using i by simp
  next
    fix j and s :: "'a memory"
    assume j: "i + 1 \<le> j" "j < n" and Ts: "T j s"
    have ls: "snd p + n * n \<le> length (s (fst p))" using Ts len by (simp add: T_def)
    have ij: "i \<noteq> j" using j by simp
    from row_axpy[where q = p and W = "\<lambda>m. rd m (B_block, 0) (i * n + j)" and m = s
        and lo = 0 and hi = n, OF i j(2) ij le_refl ls Wb]
    have e: "\<forall>r<n. \<forall>c<n. entry n (jstep j s) p r c =
            (if r = i \<and> 0 \<le> c \<and> c < n
             then entry n s p i c - rd s (B_block, 0) (i * n + j) * entry n s p j c
             else entry n s p r c)"
      and f: "\<forall>b. b \<noteq> fst p \<longrightarrow> jstep j s b = s b"
      and l: "length (jstep j s (fst p)) = length (s (fst p))"
      by (simp_all add: jstep_def)
    have w: "rd s (B_block, 0) (i * n + j) = entry n m (B_block, 0) i j"
      using Ts by (simp add: T_def entry_def rd_def)
    have sj: "entry n s p j c = entry n m p j c" if "c < n" for c
      using Ts j(2) ij that by (simp add: T_def)
    have sum: "(\<Sum>t\<in>{i + 1..<Suc j}. g t) = (\<Sum>t\<in>{i + 1..<j}. g t) + g j" for g :: "nat \<Rightarrow> 'a"
      using j(1) by (simp add: sum.atLeastLessThan_Suc)
    show "T (Suc j) (jstep j s)"
      unfolding T_def
    proof (intro conjI allI impI)
      show "jstep j s B_block = m B_block" using f ne Ts by (simp add: T_def)
      show "length (jstep j s (fst p)) = length (m (fst p))" using l Ts by (simp add: T_def)
    next
      fix r c assume rc: "r < n" "c < n"
      show "entry n (jstep j s) p r c =
         (if r = i
          then entry n m p i c - (\<Sum>t\<in>{i + 1..<Suc j}. entry n m (B_block, 0) i t * entry n m p t c)
          else entry n m p r c)"
      proof (cases "r = i")
        case True
        define Sj where "Sj = (\<Sum>t\<in>{i + 1..<j}. entry n m (B_block, 0) i t * entry n m p t c)"
        have sumS: "(\<Sum>t\<in>{i + 1..<Suc j}. entry n m (B_block, 0) i t * entry n m p t c)
                    = Sj + entry n m (B_block, 0) i j * entry n m p j c"
          unfolding Sj_def by (rule sum)
        have "entry n (jstep j s) p i c = entry n s p i c - entry n m (B_block, 0) i j * entry n m p j c"
          using e rc i w sj by simp
        also have "entry n s p i c = entry n m p i c - Sj"
          using Ts rc i by (simp add: T_def Sj_def)
        finally have "entry n (jstep j s) p i c =
            entry n m p i c - (Sj + entry n m (B_block, 0) i j * entry n m p j c)"
          by (simp add: algebra_simps)
        then show ?thesis unfolding sumS using True by simp
      next
        case False
        then show ?thesis using e rc Ts by (simp add: T_def)
      qed
    qed
  qed
  then have mid: "mid B_block = m B_block" "length (mid (fst p)) = length (m (fst p))"
    "\<forall>r<n. \<forall>c<n. entry n mid p r c =
        (if r = i
         then entry n m p i c - (\<Sum>t\<in>{i + 1..<n}. entry n m (B_block, 0) i t * entry n m p t c)
         else entry n m p r c)"
    by (simp_all add: T_def)
  have lm: "snd p + n * n \<le> length (mid (fst p))" using mid(2) len by simp
  from row_scale[where q = p and W = "\<lambda>m. rd m (B_block, 0) (i * n + i)" and m = mid and hi = n,
      OF i le_refl lm Wb]
  have e2: "\<forall>r<n. \<forall>c<n. entry n m' p r c =
            (if r = i \<and> c < n then entry n mid p i c / rd mid (B_block, 0) (i * n + i)
             else entry n mid p r c)"
    and f2: "\<forall>b. b \<noteq> fst p \<longrightarrow> m' b = mid b"
    and l2: "length (m' (fst p)) = length (mid (fst p))"
    by (simp_all add: m'_eq)
  have d: "rd mid (B_block, 0) (i * n + i) = entry n m (B_block, 0) i i"
    using mid(1) by (simp add: entry_def rd_def)
  show ?thesis
    using e2 f2 l2 mid ne i d by auto
qed

lemma subst_inv_step:
  fixes U :: "nat \<Rightarrow> nat \<Rightarrow> 'a::field"
  assumes inv: "subst_inv n U L (Suc i) X" and i: "i < n"
    and tri: "\<forall>r<n. \<forall>c<n. c < r \<longrightarrow> U r c = 0" and piv: "U i i \<noteq> 0"
    and X': "\<forall>r<n. \<forall>c<n. X' r c =
               (if r = i then (X i c - (\<Sum>t\<in>{i + 1..<n}. U i t * X t c)) / U i i else X r c)"
  shows "subst_inv n U L i X'"
  unfolding subst_inv_def
proof (intro allI impI conjI)
  fix r c assume rc: "r < n" "c < n" and "r < i"
  then show "X' r c = L r c" using X' inv by (simp add: subst_inv_def)
next
  fix r c assume rc: "r < n" "c < n" and ir: "i \<le> r"
  show "(\<Sum>t<n. U r t * X' t c) = L r c"
  proof (cases "r = i")
    case True
    define S where "S = (\<Sum>t\<in>{i + 1..<n}. U i t * X t c)"
    have Xi: "X' i c = (X i c - S) / U i i" using X' i rc(2) by (simp add: S_def)
    have "(\<Sum>t<n. U i t * X' t c) = U i i * X' i c + (\<Sum>t\<in>{..<n} - {i}. U i t * X' t c)"
      using i by (subst sum.remove[of _ i]) simp_all
    also have "(\<Sum>t\<in>{..<n} - {i}. U i t * X' t c) = (\<Sum>t\<in>{..<n} - {i}. U i t * X t c)"
      by (rule sum.cong) (use X' rc(2) in auto)
    also have "\<dots> = S"
      unfolding S_def
    proof (rule sum.mono_neutral_left[symmetric])
      show "finite ({..<n} - {i})" by simp
      show "{i + 1..<n} \<subseteq> {..<n} - {i}" by auto
      show "\<forall>t\<in>{..<n} - {i} - {i + 1..<n}. U i t * X t c = 0"
      proof
        fix t assume "t \<in> {..<n} - {i} - {i + 1..<n}"
        then have "t < i" "t < n" by auto
        then show "U i t * X t c = 0" using tri i by simp
      qed
    qed
    also have "U i i * X' i c = X i c - S" using Xi piv by simp
    finally have "(\<Sum>t<n. U i t * X' t c) = X i c" by simp
    moreover have "X i c = L i c" using inv i rc(2) by (simp add: subst_inv_def)
    ultimately show ?thesis using True by simp
  next
    case False
    then have lt: "i < r" using ir by simp
    have "(\<Sum>t<n. U r t * X' t c) = (\<Sum>t<n. U r t * X t c)"
    proof (rule sum.cong)
      fix t assume "t \<in> {..<n}"
      then have t: "t < n" by simp
      show "U r t * X' t c = U r t * X t c"
      proof (cases "t = i")
        case True
        then have "U r t = 0" using tri rc(1) i lt by simp
        then show ?thesis by simp
      next
        case False
        then show ?thesis using X' t rc(2) by simp
      qed
    qed simp
    also have "\<dots> = L r c" using inv rc lt by (simp add: subst_inv_def)
    finally show ?thesis .
  qed
qed

lemma MatrixInverse_substitute_inv:
  fixes m2 :: "('a::field) memory"
  assumes ne: "fst p \<noteq> B_block" and len: "snd p + n * n \<le> length (m2 (fst p))"
    and tri: "\<forall>r<n. \<forall>c<n. c < r \<longrightarrow> entry n m2 (B_block, 0) r c = 0"
    and piv: "\<forall>j<n. entry n m2 (B_block, 0) j j \<noteq> 0"
  shows "subst_inv n (entry n m2 (B_block, 0)) (entry n m2 p) 0
           (entry n (MatrixInverse_substitute n p m2) p)"
proof -
  define body where "body = (\<lambda>i (m :: 'a memory).
    (let m = fold (\<lambda>jVar. fold (\<lambda>kVar m. wr m p (i * n + kVar)
                   (rd m p (i * n + kVar)
                      - rd m (B_block, 0) (i * n + jVar) * rd m p (jVar * n + kVar)))
                  [0..<n]) [i + 1..<n] m
     in fold (\<lambda>kVar m. wr m p (i * n + kVar)
                   (rd m p (i * n + kVar) / rd m (B_block, 0) (i * n + i)))
             [0..<n] m))"
  have run: "MatrixInverse_substitute n p m2 = fold body (rev [0..<n]) m2"
    unfolding MatrixInverse_substitute_def body_def ..
  define P where "P = (\<lambda>i (s :: 'a memory).
     s B_block = m2 B_block \<and> length (s (fst p)) = length (m2 (fst p)) \<and>
     subst_inv n (entry n m2 (B_block, 0)) (entry n m2 p) i (entry n s p))"
  have "P 0 (fold body (rev [0..<n]) m2)"
  proof (rule fold_rev_upt_invariant[where P = P])
    show "P n m2" by (simp add: P_def subst_inv_def)
  next
    fix i and s :: "'a memory"
    assume i: "i < n" and Ps: "P (Suc i) s"
    have ls: "snd p + n * n \<le> length (s (fst p))" using Ps len by (simp add: P_def)
    have st: "(\<forall>r<n. \<forall>c<n. entry n (body i s) p r c =
            (if r = i
             then (entry n s p i c
                    - (\<Sum>t\<in>{i + 1..<n}. entry n s (B_block, 0) i t * entry n s p t c))
                  / entry n s (B_block, 0) i i
             else entry n s p r c))
       \<and> body i s B_block = s B_block \<and> length (body i s (fst p)) = length (s (fst p))"
      unfolding body_def by (rule substitute_row[where m = s, OF ne ls i])
    have sb: "entry n s (B_block, 0) r c = entry n m2 (B_block, 0) r c" for r c
      by (rule entry_cong_buf) (use Ps in \<open>simp add: P_def\<close>)
    show "P i (body i s)"
      unfolding P_def
    proof (intro conjI)
      show "body i s B_block = m2 B_block" using st Ps by (simp add: P_def)
      show "length (body i s (fst p)) = length (m2 (fst p))" using st Ps by (simp add: P_def)
      have inv: "subst_inv n (entry n m2 (B_block, 0)) (entry n m2 p) (Suc i) (entry n s p)"
        using Ps by (simp add: P_def)
      show "subst_inv n (entry n m2 (B_block, 0)) (entry n m2 p) i (entry n (body i s) p)"
        by (rule subst_inv_step[OF inv i tri]) (use piv i st in \<open>simp_all add: sb\<close>)
    qed
  qed
  then show ?thesis by (simp add: run P_def)
qed

lemma sum_product_assoc:
  fixes X :: "nat \<Rightarrow> nat \<Rightarrow> 'a::field"
  shows "(\<Sum>t<n. (\<Sum>s<n. X r s * Y s t) * Z t c) = (\<Sum>s<n. X r s * (\<Sum>t<n. Y s t * Z t c))"
proof -
  have "(\<Sum>t<n. (\<Sum>s<n. X r s * Y s t) * Z t c) = (\<Sum>t<n. \<Sum>s<n. X r s * (Y s t * Z t c))"
    by (simp add: sum_distrib_right mult.assoc)
  also have "\<dots> = (\<Sum>s<n. \<Sum>t<n. X r s * (Y s t * Z t c))" by (rule sum.swap)
  also have "\<dots> = (\<Sum>s<n. X r s * (\<Sum>t<n. Y s t * Z t c))" by (simp add: sum_distrib_left)
  finally show ?thesis .
qed

lemma tri_row_cancel:
  fixes T :: "nat \<Rightarrow> nat \<Rightarrow> 'a::field"
  assumes "r < n" "T r r \<noteq> 0"
    and eq: "(\<Sum>t<n. T r t * Y t) = (\<Sum>t<n. T r t * Z t)"
    and rest: "\<forall>t<n. t \<noteq> r \<longrightarrow> T r t = 0 \<or> Y t = Z t"
  shows "Y r = Z r"
proof -
  have split: "(\<Sum>t<n. T r t * W t) = T r r * W r + (\<Sum>t\<in>{..<n} - {r}. T r t * W t)"
    for W :: "nat \<Rightarrow> 'a"
    using assms(1) by (subst sum.remove[of _ r]) simp_all
  have "(\<Sum>t\<in>{..<n} - {r}. T r t * Y t) = (\<Sum>t\<in>{..<n} - {r}. T r t * Z t)"
    by (rule sum.cong) (use rest in auto)
  with eq have "T r r * Y r = T r r * Z r" by (simp add: split)
  with assms(2) show ?thesis by simp
qed

lemma upper_unique:
  fixes U :: "nat \<Rightarrow> nat \<Rightarrow> 'a::field"
  assumes tri: "\<forall>r<n. \<forall>c<n. c < r \<longrightarrow> U r c = 0" and diag: "\<forall>r<n. U r r \<noteq> 0"
    and eq: "\<forall>r<n. (\<Sum>t<n. U r t * Y t) = (\<Sum>t<n. U r t * Z t)"
    and "r < n"
  shows "Y r = Z r"
  using \<open>r < n\<close>
proof (induction "n - r" arbitrary: r rule: less_induct)
  case less
  show ?case
  proof (rule tri_row_cancel[where T = U and n = n])
    show "r < n" by (rule less.prems)
    show "U r r \<noteq> 0" using diag less.prems by simp
    show "(\<Sum>t<n. U r t * Y t) = (\<Sum>t<n. U r t * Z t)" using eq less.prems by simp
    show "\<forall>t<n. t \<noteq> r \<longrightarrow> U r t = 0 \<or> Y t = Z t"
    proof (intro allI impI)
      fix t assume t: "t < n" "t \<noteq> r"
      show "U r t = 0 \<or> Y t = Z t"
      proof (cases "t < r")
        case True
        then show ?thesis using tri less.prems t(1) by simp
      next
        case False
        then have "n - t < n - r" using t less.prems by simp
        from less.hyps[OF this t(1)] show ?thesis by simp
      qed
    qed
  qed
qed

lemma lower_unique:
  fixes L :: "nat \<Rightarrow> nat \<Rightarrow> 'a::field"
  assumes tri: "\<forall>r<n. \<forall>c<n. r < c \<longrightarrow> L r c = 0" and diag: "\<forall>r<n. L r r \<noteq> 0"
    and eq: "\<forall>r<n. (\<Sum>t<n. L r t * Y t) = (\<Sum>t<n. L r t * Z t)"
    and "r < n"
  shows "Y r = Z r"
  using \<open>r < n\<close>
proof (induction r rule: less_induct)
  case (less r)
  show ?case
  proof (rule tri_row_cancel[where T = L and n = n])
    show "r < n" by (rule less.prems)
    show "L r r \<noteq> 0" using diag less.prems by simp
    show "(\<Sum>t<n. L r t * Y t) = (\<Sum>t<n. L r t * Z t)" using eq less.prems by simp
    show "\<forall>t<n. t \<noteq> r \<longrightarrow> L r t = 0 \<or> Y t = Z t"
    proof (intro allI impI)
      fix t assume t: "t < n" "t \<noteq> r"
      show "L r t = 0 \<or> Y t = Z t"
      proof (cases "t < r")
        case True
        from less.IH[OF True t(1)] show ?thesis by simp
      next
        case False
        then have "r < t" using t by simp
        then show ?thesis using tri less.prems t(1) by simp
      qed
    qed
  qed
qed

text \<open>
  The result of the three phases, for a matrix \<open>A\<close> on which the elimination
  meets no zero pivot.
\<close>

lemma MatrixInverse_is_inverse:
  fixes m :: "('a::field) memory"
  assumes ne: "fst p \<noteq> B_block"
    and len: "n * n \<le> length (m B_block)" "snd p + n * n \<le> length (m (fst p))"
    and al: "matrix = p \<or> (fst matrix \<noteq> fst p \<and> fst matrix \<noteq> B_block)"
    and piv: "\<forall>j<n. entry n (MatrixInverse_eliminate n p (MatrixInverse_copy n matrix p m))
                      (B_block, 0) j j \<noteq> 0"
    and rc: "r < n" "c < n"
  shows "(\<Sum>t<n. entry n m matrix r t * entry n (MatrixInverse n matrix p m) p t c)
           = (if r = c then 1 else 0)"
    and "(\<Sum>t<n. entry n (MatrixInverse n matrix p m) p r t * entry n m matrix t c)
           = (if r = c then 1 else 0)"
proof -
  define A where "A = entry n m matrix"
  define m1 where "m1 = MatrixInverse_copy n matrix p m"
  define m2 where "m2 = MatrixInverse_eliminate n p m1"
  define U where "U = entry n m2 (B_block, 0)"
  define L where "L = entry n m2 p"
  define X where "X = entry n (MatrixInverse_substitute n p m2) p"
  define I where "I = (\<lambda>r c :: nat. if r = c then 1 else 0 :: 'a)"
  from MatrixInverse_copy_entries[OF ne len al]
  have c1: "\<forall>r<n. \<forall>c<n. entry n m1 (B_block, 0) r c = A r c \<and>
                         entry n m1 p r c = (if r = c then 1 else 0)"
    and l1: "n * n \<le> length (m1 B_block)" "snd p + n * n \<le> length (m1 (fst p))"
    using len by (simp_all add: m1_def A_def)
  have piv1: "\<forall>j<n. entry n (MatrixInverse_eliminate n p m1) (B_block, 0) j j \<noteq> 0"
    using piv by (simp add: m1_def)
  from MatrixInverse_eliminate_inv[where n = n and p = p and ?m1.0 = m1 and A = A,
      OF ne l1 c1 piv1]
  have e2: "elim_inv n A n 0 U L" and l2: "snd p + n * n \<le> length (m2 (fst p))"
    using l1 by (simp_all add: m2_def U_def L_def)
  from e2 have LA: "\<forall>r<n. \<forall>c<n. (\<Sum>t<n. L r t * A t c) = U r c"
    and Ltri: "\<forall>r<n. \<forall>c<n. r < c \<longrightarrow> L r c = 0"
    and Ldiag: "\<forall>r<n. L r r \<noteq> 0"
    and Utri: "\<forall>r<n. \<forall>c<n. c < r \<longrightarrow> U r c = 0"
    by (simp_all add: elim_inv_def)
  have Udiag: "\<forall>r<n. U r r \<noteq> 0" using piv by (simp add: U_def m2_def m1_def)
  have "subst_inv n U L 0 X"
    unfolding U_def L_def X_def
    by (rule MatrixInverse_substitute_inv[where n = n and p = p and ?m2.0 = m2,
          OF ne l2 Utri[unfolded U_def] Udiag[unfolded U_def]])
  then have UX: "\<forall>r<n. \<forall>c<n. (\<Sum>t<n. U r t * X t c) = L r c" by (simp add: subst_inv_def)
  have XA: "(\<Sum>t<n. X r t * A t c) = I r c" if "r < n" "c < n" for r c
  proof (rule upper_unique[where U = U and n = n and Y = "\<lambda>r. \<Sum>t<n. X r t * A t c"
        and Z = "\<lambda>r. I r c", OF Utri Udiag _ that(1)])
    show "\<forall>r<n. (\<Sum>t<n. U r t * (\<Sum>s<n. X t s * A s c)) = (\<Sum>t<n. U r t * I t c)"
    proof (intro allI impI)
      fix r' assume r': "r' < n"
      have "(\<Sum>t<n. U r' t * (\<Sum>s<n. X t s * A s c)) = (\<Sum>s<n. (\<Sum>t<n. U r' t * X t s) * A s c)"
        by (rule sum_product_assoc[symmetric])
      also have "\<dots> = (\<Sum>s<n. L r' s * A s c)"
        by (rule sum.cong) (use UX r' in auto)
      also have "\<dots> = U r' c" using LA r' that(2) by simp
      also have "\<dots> = (\<Sum>t<n. U r' t * I t c)"
        unfolding I_def by (rule sum_delta_col[OF that(2), symmetric])
      finally show "(\<Sum>t<n. U r' t * (\<Sum>s<n. X t s * A s c)) = (\<Sum>t<n. U r' t * I t c)" .
    qed
  qed
  have AX: "(\<Sum>t<n. A r t * X t c) = I r c" if "r < n" "c < n" for r c
  proof (rule lower_unique[where L = L and n = n and Y = "\<lambda>r. \<Sum>t<n. A r t * X t c"
        and Z = "\<lambda>r. I r c", OF Ltri Ldiag _ that(1)])
    show "\<forall>r<n. (\<Sum>t<n. L r t * (\<Sum>s<n. A t s * X s c)) = (\<Sum>t<n. L r t * I t c)"
    proof (intro allI impI)
      fix r' assume r': "r' < n"
      have "(\<Sum>t<n. L r' t * (\<Sum>s<n. A t s * X s c)) = (\<Sum>s<n. (\<Sum>t<n. L r' t * A t s) * X s c)"
        by (rule sum_product_assoc[symmetric])
      also have "\<dots> = (\<Sum>s<n. U r' s * X s c)"
        by (rule sum.cong) (use LA r' in auto)
      also have "\<dots> = L r' c" using UX r' that(2) by simp
      also have "\<dots> = (\<Sum>t<n. L r' t * I t c)"
        unfolding I_def by (rule sum_delta_col[OF that(2), symmetric])
      finally show "(\<Sum>t<n. L r' t * (\<Sum>s<n. A t s * X s c)) = (\<Sum>t<n. L r' t * I t c)" .
    qed
  qed
  have res: "entry n (MatrixInverse n matrix p m) p = X"
    by (simp add: MatrixInverse_def X_def m2_def m1_def)
  show "(\<Sum>t<n. entry n m matrix r t * entry n (MatrixInverse n matrix p m) p t c)
           = (if r = c then 1 else 0)"
    using AX[OF rc] by (simp add: res A_def I_def)
  show "(\<Sum>t<n. entry n (MatrixInverse n matrix p m) p r t * entry n m matrix t c)
           = (if r = c then 1 else 0)"
    using XA[OF rc] by (simp add: res A_def I_def)
qed

lemma fold_related:
  assumes "\<And>x s s'. R s s' \<Longrightarrow> R (f x s) (g x s')" "R s s'"
  shows "R (fold f xs s) (fold g xs s')"
  using assms(2) by (induction xs arbitrary: s s') (simp_all add: assms(1))

lemma fold2_upt_invariant:
  assumes "P lo s s'" "lo \<le> hi"
    and "\<And>i s s'. lo \<le> i \<Longrightarrow> i < hi \<Longrightarrow> P i s s' \<Longrightarrow> P (Suc i) (f i s) (g i s')"
  shows "P hi (fold f [lo..<hi] s) (fold g [lo..<hi] s')"
  using assms(2,3)
proof (induction hi)
  case 0
  then show ?case using assms(1) by simp
next
  case (Suc hi)
  show ?case
  proof (cases "lo = Suc hi")
    case True
    then show ?thesis using assms(1) by simp
  next
    case False
    then have le: "lo \<le> hi" using Suc.prems(1) by simp
    have "P hi (fold f [lo..<hi] s) (fold g [lo..<hi] s')"
      by (rule Suc.IH[OF le]) (use Suc.prems(2) in simp)
    then have "P (Suc hi) (f hi (fold f [lo..<hi] s)) (g hi (fold g [lo..<hi] s'))"
      using Suc.prems(2)[OF le] by simp
    then show ?thesis using le by simp
  qed
qed

lemma agree_rd:
  "agree p m m' \<Longrightarrow> rd m (B_block, 0) k = rd m' (B_block, 0) k"
  "agree p m m' \<Longrightarrow> rd m p k = rd m' p k"
  by (simp_all add: agree_def rd_def)

lemma agree_wr:
  "agree p m m' \<Longrightarrow> agree p (wr m (B_block, 0) k v) (wr m' (B_block, 0) k v)"
  "agree p m m' \<Longrightarrow> agree p (wr m p k v) (wr m' p k v)"
  by (simp_all add: agree_def wr_def)

lemma MatrixInverse_eliminate_agree:
  assumes "agree p m m'"
  shows "agree p (MatrixInverse_eliminate n p m) (MatrixInverse_eliminate n p m')"
  unfolding MatrixInverse_eliminate_def
proof (rule fold_related[where R = "agree p", OF _ assms], rule fold_related[where R = "agree p"])
  fix i j :: nat and s s' :: "'a memory"
  assume a: "agree p s s'"
  have w: "rd s (B_block, 0) (i * n + j) / rd s (B_block, 0) (j * n + j)
         = rd s' (B_block, 0) (i * n + j) / rd s' (B_block, 0) (j * n + j)"
    using a by (simp add: agree_rd(1)[OF a])
  define wt where "wt = rd s' (B_block, 0) (i * n + j) / rd s' (B_block, 0) (j * n + j)"
  have 1: "agree p
     (fold (\<lambda>kVar m. wr m (B_block, 0) (i * n + kVar)
              (rd m (B_block, 0) (i * n + kVar) - wt * rd m (B_block, 0) (j * n + kVar))) [j..<n] s)
     (fold (\<lambda>kVar m. wr m (B_block, 0) (i * n + kVar)
              (rd m (B_block, 0) (i * n + kVar) - wt * rd m (B_block, 0) (j * n + kVar))) [j..<n] s')"
    by (rule fold_related[where R = "agree p", OF _ a]) (simp add: agree_rd agree_wr)
  have 2: "agree p
     (fold (\<lambda>kVar m. wr m p (i * n + kVar)
              (rd m p (i * n + kVar) - wt * rd m p (j * n + kVar))) [0..<j + 1] t)
     (fold (\<lambda>kVar m. wr m p (i * n + kVar)
              (rd m p (i * n + kVar) - wt * rd m p (j * n + kVar))) [0..<j + 1] t')"
    if "agree p t t'" for t t' :: "'a memory"
    by (rule fold_related[where R = "agree p", OF _ that]) (simp add: agree_rd agree_wr)
  show "agree p
     (let weight = rd s (B_block, 0) (i * n + j) / rd s (B_block, 0) (j * n + j);
          m = fold (\<lambda>kVar m. wr m (B_block, 0) (i * n + kVar)
                   (rd m (B_block, 0) (i * n + kVar) - weight * rd m (B_block, 0) (j * n + kVar)))
                [j..<n] s
      in fold (\<lambda>kVar m. wr m p (i * n + kVar)
                   (rd m p (i * n + kVar) - weight * rd m p (j * n + kVar))) [0..<j + 1] m)
     (let weight = rd s' (B_block, 0) (i * n + j) / rd s' (B_block, 0) (j * n + j);
          m = fold (\<lambda>kVar m. wr m (B_block, 0) (i * n + kVar)
                   (rd m (B_block, 0) (i * n + kVar) - weight * rd m (B_block, 0) (j * n + kVar)))
                [j..<n] s'
      in fold (\<lambda>kVar m. wr m p (i * n + kVar)
                   (rd m p (i * n + kVar) - weight * rd m p (j * n + kVar))) [0..<j + 1] m)"
    unfolding Let_def w wt_def[symmetric] by (rule 2[OF 1])
qed

lemma MatrixInverse_substitute_agree:
  assumes "agree p m m'"
  shows "agree p (MatrixInverse_substitute n p m) (MatrixInverse_substitute n p m')"
  unfolding MatrixInverse_substitute_def Let_def
proof (rule fold_related[where R = "agree p", OF _ assms])
  fix i :: nat and s s' :: "'a memory"
  assume a: "agree p s s'"
  have 1: "agree p
     (fold (\<lambda>jVar. fold (\<lambda>kVar m. wr m p (i * n + kVar)
              (rd m p (i * n + kVar) - rd m (B_block, 0) (i * n + jVar) * rd m p (jVar * n + kVar)))
              [0..<n]) [i + 1..<n] s)
     (fold (\<lambda>jVar. fold (\<lambda>kVar m. wr m p (i * n + kVar)
              (rd m p (i * n + kVar) - rd m (B_block, 0) (i * n + jVar) * rd m p (jVar * n + kVar)))
              [0..<n]) [i + 1..<n] s')"
    by (rule fold_related[where R = "agree p", OF _ a], rule fold_related[where R = "agree p"])
       (simp add: agree_rd agree_wr)
  show "agree p
     (fold (\<lambda>kVar m. wr m p (i * n + kVar)
              (rd m p (i * n + kVar) / rd m (B_block, 0) (i * n + i))) [0..<n]
        (fold (\<lambda>jVar. fold (\<lambda>kVar m. wr m p (i * n + kVar)
              (rd m p (i * n + kVar) - rd m (B_block, 0) (i * n + jVar) * rd m p (jVar * n + kVar)))
              [0..<n]) [i + 1..<n] s))
     (fold (\<lambda>kVar m. wr m p (i * n + kVar)
              (rd m p (i * n + kVar) / rd m (B_block, 0) (i * n + i))) [0..<n]
        (fold (\<lambda>jVar. fold (\<lambda>kVar m. wr m p (i * n + kVar)
              (rd m p (i * n + kVar) - rd m (B_block, 0) (i * n + jVar) * rd m p (jVar * n + kVar)))
              [0..<n]) [i + 1..<n] s'))"
    by (rule fold_related[where R = "agree p", OF _ 1]) (simp add: agree_rd agree_wr)
qed

lemma MatrixInverse_copy_agree:
  assumes ne: "fst p \<noteq> B_block" "fst q \<noteq> fst p" "fst q \<noteq> B_block"
    and same: "\<forall>t<n * n. rd m q t = rd m p t"
  shows "agree p (MatrixInverse_copy n p p m) (MatrixInverse_copy n q p m)"
proof -
  define body where "body = (\<lambda>mat i j (s :: 'a memory).
     wr (wr s (B_block, 0) (i * n + j) (rd s mat (i * n + j))) p (i * n + j)
        (if i = j then 1 else 0))"
  define P where "P = (\<lambda>i j (s :: 'a memory) s'.
     agree p s s' \<and> (\<forall>t. i * n + j \<le> t \<and> t < n * n \<longrightarrow> rd s p t = rd s' q t))"
  have inner: "P i (Suc j) (body p i j s) (body q i j s')"
    if "i < n" "j < n" "P i j s s'" for i j s s'
  proof -
    have lt: "i * n + j < n * n" by (rule slot_lt[OF that(1,2)])
    from that(3) have a: "agree p s s'" and r: "rd s p (i * n + j) = rd s' q (i * n + j)"
      and rest: "\<forall>t. i * n + j \<le> t \<and> t < n * n \<longrightarrow> rd s p t = rd s' q t"
      using lt by (simp_all add: P_def)
    have "agree p (body p i j s) (body q i j s')"
      unfolding body_def r by (intro agree_wr a)
    moreover have "rd (body p i j s) p t = rd (body q i j s') q t"
      if "i * n + Suc j \<le> t" "t < n * n" for t
    proof -
      have "rd (body p i j s) p t = rd s p t"
        using that(1) ne by (simp add: body_def rd_def wr_def)
      moreover have "rd (body q i j s') q t = rd s' q t"
        using ne by (auto simp add: body_def rd_def wr_def)
      ultimately show ?thesis using rest that by simp
    qed
    ultimately show ?thesis by (simp add: P_def)
  qed
  have outer: "P (Suc i) 0 (fold (body p i) [0..<n] s) (fold (body q i) [0..<n] s')"
    if "i < n" "P i 0 s s'" for i s s'
  proof -
    have "P i n (fold (body p i) [0..<n] s) (fold (body q i) [0..<n] s')"
      by (rule fold2_upt_invariant[where P = "P i" and lo = 0])
         (use that inner in simp_all)
    then show ?thesis by (simp add: P_def add.commute)
  qed
  have "P 0 0 m m" using same by (simp add: P_def agree_def)
  then have "P n 0 (fold (\<lambda>i. fold (body p i) [0..<n]) [0..<n] m)
                   (fold (\<lambda>i. fold (body q i) [0..<n]) [0..<n] m)"
    by (intro fold2_upt_invariant[where P = "\<lambda>i. P i 0" and lo = 0]) (use outer in simp_all)
  then show ?thesis by (simp add: P_def MatrixInverse_copy_def body_def)
qed

text \<open>
  For any arithmetic: the call with \<open>matrix\<close> and \<open>inverse\<close> the same pointer leaves
  in the buffer of \<open>inverse\<close> what the call on a copy of the block kept elsewhere
  leaves there.
\<close>

lemma MatrixInverse_aliased_as_on_copy:
  assumes ne: "fst p \<noteq> B_block" "fst q \<noteq> fst p" "fst q \<noteq> B_block"
    and same: "\<forall>t<n * n. rd m q t = rd m p t"
  shows "MatrixInverse n p p m (fst p) = MatrixInverse n q p m (fst p)"
proof -
  have "agree p (MatrixInverse n p p m) (MatrixInverse n q p m)"
    unfolding MatrixInverse_def
    by (intro MatrixInverse_substitute_agree MatrixInverse_eliminate_agree
          MatrixInverse_copy_agree ne same)
  then show ?thesis by (simp add: agree_def)
qed

section \<open>Dimension checks of the matrix-vector products\<close>

text \<open>
  C8, as stated, fails: the checks stand between \<open>#ifndef NDEBUG\<close> and \<open>#endif\<close>, so
  a build with \<open>NDEBUG\<close> defined makes no check. On the one-point system, called
  with vectors of two blocks, such a build returns normally, with the product in
  the first block of the result.
\<close>

theorem MatrixVectorProduct_mismatch_counterexample:
  "nPoint ex1_A \<noteq> GetNBlk ex1_vec \<and>
   buffer_after (B_vector 1)
     (MatrixVectorProduct True ex1_A ex1_geometry ex1_vec ex1_prod ex1_env ex1_state) = Inr [6, 0]"
  by code_simp

text \<open>
  C8, amended: in a build without \<open>NDEBUG\<close>, a call of \<open>MatrixVectorProduct\<close> or of
  \<open>MatrixVectorProductTransposed\<close> whose vectors disagree with the matrix in
  \<open>nVar\<close> or in the number of blocks ends in the fatal error, whatever the state,
  and no product is computed.
\<close>

theorem MatrixVectorProduct_mismatch_fatal:
  assumes "\<not> NDEBUG"
    and "nVar A \<noteq> GetNVar vec \<or> nVar A \<noteq> GetNVar prd \<or>
         nPoint A \<noteq> GetNBlk vec \<or> nPoint A \<noteq> GetNBlk prd"
  shows "MatrixVectorProduct NDEBUG A geometry vec prd env s =
           Inl (Error (if nVar A \<noteq> GetNVar vec \<or> nVar A \<noteq> GetNVar prd
                       then ''nVar values incompatible.''
                       else ''nPoint and nBlk values incompatible.''))
       \<and> MatrixVectorProductTransposed NDEBUG A geometry vec prd env s =
           Inl (Error (if nVar A \<noteq> GetNVar vec \<or> nVar A \<noteq> GetNVar prd
                       then ''nVar values incompatible.''
                       else ''nPoint and nBlk values incompatible.''))"
  using assms by (auto simp: MatrixVectorProduct_def MatrixVectorProductTransposed_def)

theorem MatrixVectorProduct_mismatch_fatal_witness:
  "MatrixVectorProduct False ex1_A ex1_geometry ex1_vec ex1_prod ex1_env ex1_state =
     Inl (Error ''nPoint and nBlk values incompatible.'')
   \<and> MatrixVectorProductTransposed False ex1_A ex1_geometry ex1_vec ex1_prod ex1_env ex1_state =
     Inl (Error ''nPoint and nBlk values incompatible.'')"
  using MatrixVectorProduct_mismatch_fatal
    [of False ex1_A ex1_vec ex1_prod ex1_geometry ex1_env ex1_state]
  by (simp add: ex1_A_def ex1_vec_def ex1_prod_def)

section \<open>The result of \<open>EnforceSolutionAtNode\<close>\<close>

text \<open>
  C4. After \<open>EnforceSolutionAtNode(node_i, x_i, b)\<close> on a well-formed pattern:
  every block of the block-row \<open>node_i\<close> is zero, except that the block in column
  \<open>node_i\<close> is the identity; in every other row the block in column \<open>node_i\<close> is
  zero and the other blocks are as before; the right-hand side at every other
  point \<open>p\<close> is what it was minus the product of the old block \<open>(p, node_i)\<close> with
  \<open>x_i\<close>, for the rows that hold such a block (the sum ranges over the entries of
  row \<open>p\<close> in column \<open>node_i\<close>); and the right-hand side at \<open>node_i\<close> is \<open>x_i\<close>. The
  vector \<open>x_i\<close> lies outside \<open>b\<close> and the matrix.
\<close>

theorem EnforceSolutionAtNode_result:
  fixes A :: CSysMatrix and m :: "('a::field) memory"
  assumes bufs: "b \<noteq> B_matrix" "fst x_i \<noteq> b" "fst x_i \<noteq> B_matrix"
    and pat: "wf_pattern (nPoint A) (nPoint A) (row_ptr A) (col_ind A)"
    and len: "length (m B_matrix) = length (col_ind A) * nVar A * nVar A"
      "length (m b) = nPoint A * nVar A"
    and node: "node_i < nPoint A"
  shows "(\<forall>index\<in>{row_ptr A ! node_i..<row_ptr A ! (node_i + 1)}. \<forall>iVar<nVar A. \<forall>jVar<nVar A.
            EnforceSolutionAtNode A node_i x_i b m B_matrix !
              (index * nVar A * nVar A + iVar * nVar A + jVar) =
            (if col_ind A ! index = node_i \<and> iVar = jVar then 1 else 0))
       \<and> (\<forall>p<nPoint A. p \<noteq> node_i \<longrightarrow>
            (\<forall>index\<in>{row_ptr A ! p..<row_ptr A ! (p + 1)}. \<forall>iVar<nVar A. \<forall>jVar<nVar A.
               EnforceSolutionAtNode A node_i x_i b m B_matrix !
                 (index * nVar A * nVar A + iVar * nVar A + jVar) =
               (if col_ind A ! index = node_i then 0
                else m B_matrix ! (index * nVar A * nVar A + iVar * nVar A + jVar))))
       \<and> (\<forall>p<nPoint A. p \<noteq> node_i \<longrightarrow>
            (\<forall>iVar<nVar A.
               EnforceSolutionAtNode A node_i x_i b m b ! (p * nVar A + iVar) =
               m b ! (p * nVar A + iVar) -
               (\<Sum>index\<in>{row_ptr A ! p..<row_ptr A ! (p + 1)}.
                  if col_ind A ! index = node_i
                  then (\<Sum>jVar<nVar A.
                          m B_matrix ! (index * nVar A * nVar A + iVar * nVar A + jVar) * rd m x_i jVar)
                  else 0)))
       \<and> (\<forall>iVar<nVar A.
            EnforceSolutionAtNode A node_i x_i b m b ! (node_i * nVar A + iVar) = rd m x_i iVar)"
proof -
  define nv where "nv = nVar A"
  define rp where "rp = row_ptr A"
  define ci where "ci = col_ind A"
  define n where "n = nPoint A"
  define M where "M = m B_matrix"
  define X where "X = m (fst x_i)"
  define xo where "xo = snd x_i"
  define hits where "hits = column_hits rp ci node_i n"
  define lo where "lo = rp ! node_i * nv * nv"
  define hi where "hi = rp ! (node_i + 1) * nv * nv"
  define M1 where "M1 = fold (\<lambda>index M. M[index := 0]) [lo..<hi] M"
  define M2 where "M2 = fold (block_reset nv node_i) hits M1"
  define B2 where "B2 = fold (rhs_sub nv X xo M1) hits (m b)"
  define B3 where "B3 = fold (\<lambda>iVar B. B[node_i * nv + iVar := X ! (xo + iVar)]) [0..<nv] B2"
  have sorted: "sorted rp" "n < length rp" "rp ! n = length ci"
    using pat by (simp_all add: wf_pattern_def rp_def ci_def n_def)
  have res: "EnforceSolutionAtNode A node_i x_i b m = m(b := B3, B_matrix := M2)"
    unfolding EnforceSolutionAtNode_eq[where A = A and m = m and b = b and x_i = x_i
        and node_i = node_i, OF bufs pat len(1)]
    by (simp only: B3_def B2_def M2_def M1_def lo_def hi_def hits_def nv_def rp_def ci_def n_def
        M_def X_def xo_def)
  have resM: "EnforceSolutionAtNode A node_i x_i b m B_matrix = M2"
    and resB: "EnforceSolutionAtNode A node_i x_i b m b = B3"
    using bufs(1) by (simp_all add: res)
  have lenM: "length M = length ci * nv * nv" using len(1) by (simp add: M_def ci_def nv_def)
  have lenM1: "length M1 = length M" by (simp add: M1_def)
  have lenB2: "length B2 = n * nv"
    unfolding B2_def using len(2) by (subst length_fold_same) (simp_all add: n_def nv_def)
  have M1: "M1 ! e = (if lo \<le> e \<and> e < hi then 0 else M ! e)" if "e < length M" for e
    unfolding M1_def using nth_fold_const[OF that, of "\<lambda>i. i" 0 "[lo..<hi]"] by auto
  \<comment> \<open>matrix entries\<close>
  have slot: "M2 ! (index * nv * nv + iVar * nv + jVar) =
      (if ci ! index = node_i
       then (if p = node_i then (if iVar = jVar then 1 else M1 ! (index * nv * nv + iVar * nv + jVar))
             else 0)
       else M1 ! (index * nv * nv + iVar * nv + jVar))"
    and slot1: "M1 ! (index * nv * nv + iVar * nv + jVar) =
      (if rp ! node_i \<le> index \<and> index < rp ! (node_i + 1) then 0
       else M ! (index * nv * nv + iVar * nv + jVar))"
    if p: "p < n" "rp ! p \<le> index" "index < rp ! (p + 1)" and v: "iVar < nv" "jVar < nv"
    for p index iVar jVar
  proof -
    define e where "e = index * nv * nv + iVar * nv + jVar"
    define r where "r = iVar * nv + jVar"
    have r: "r < nv * nv" unfolding r_def by (rule slot_lt[OF v])
    have e_r: "e = index * (nv * nv) + r" by (simp add: e_def r_def mult.assoc add.assoc)
    have e: "e < length M"
      unfolding e_def lenM by (rule matrix_slot_bound[OF sorted p(1,3) v])
    have e1: "e < length M1" using e lenM1 by simp
    have pt: "block_reset nv node_i h M' ! e =
        (if snd h = index
         then (if fst h = node_i then (if iVar = jVar then 1 else M' ! e) else 0)
         else M' ! e)" if "e < length M'" for h M'
    proof (cases "snd h = index")
      case True
      then show ?thesis
        using nth_block_reset_in[of h nv iVar jVar M' node_i] that v by (simp add: e_def)
    next
      case False
      have "\<not> (snd h * (nv * nv) \<le> index * (nv * nv) + r \<and>
                index * (nv * nv) + r < snd h * (nv * nv) + nv * nv)"
        by (rule block_disjoint) (use False r in auto)
      then show ?thesis
        using nth_block_reset_other[of e M' h nv node_i] that False by (simp add: e_r)
    qed
    have "M2 ! e = fold (\<lambda>h v. if snd h = index
         then (if fst h = node_i then (if iVar = jVar then 1 else v) else 0) else v) hits (M1 ! e)"
      unfolding M2_def
      by (rule nth_fold_pointwise[where e = e]) (simp_all add: pt e1)
    also have "\<dots> = (if ci ! index = node_i
       then (if p = node_i then (if iVar = jVar then 1 else M1 ! e) else 0)
       else M1 ! e)"
      using filter_snd_column_hits[OF sorted(1,2) p, of ci node_i]
        scalar_fold_single[of "\<lambda>h. snd h = index" hits "(p, index)"
           "\<lambda>h v. if fst h = node_i then (if iVar = jVar then 1 else v) else 0" "M1 ! e"]
        scalar_fold_none[of "\<lambda>h. snd h = index" hits
           "\<lambda>h v. if fst h = node_i then (if iVar = jVar then 1 else v) else 0" "M1 ! e"]
      by (simp add: hits_def)
    finally show "M2 ! (index * nv * nv + iVar * nv + jVar) =
      (if ci ! index = node_i
       then (if p = node_i then (if iVar = jVar then 1 else M1 ! (index * nv * nv + iVar * nv + jVar))
             else 0)
       else M1 ! (index * nv * nv + iVar * nv + jVar))"
      by (simp only: e_def)
    have "lo \<le> e \<and> e < hi \<longleftrightarrow> rp ! node_i \<le> index \<and> index < rp ! (node_i + 1)"
      using block_range_iff[OF r, of "rp ! node_i" index "rp ! (node_i + 1)"]
      by (simp add: e_r lo_def hi_def mult.assoc)
    then show "M1 ! (index * nv * nv + iVar * nv + jVar) =
      (if rp ! node_i \<le> index \<and> index < rp ! (node_i + 1) then 0
       else M ! (index * nv * nv + iVar * nv + jVar))"
      using M1[OF e] by (simp add: e_def)
  qed
  have c1: "M2 ! (index * nv * nv + iVar * nv + jVar) =
            (if ci ! index = node_i \<and> iVar = jVar then 1 else 0)"
    if "index \<in> {rp ! node_i..<rp ! (node_i + 1)}" "iVar < nv" "jVar < nv" for index iVar jVar
  proof -
    have p: "node_i < n" "rp ! node_i \<le> index" "index < rp ! (node_i + 1)"
      using that(1) node by (simp_all add: n_def)
    show ?thesis using slot[OF p that(2,3)] slot1[OF p that(2,3)] p by simp
  qed
  have c2: "M2 ! (index * nv * nv + iVar * nv + jVar) =
            (if ci ! index = node_i then 0 else M ! (index * nv * nv + iVar * nv + jVar))"
    if "p < n" "p \<noteq> node_i" "index \<in> {rp ! p..<rp ! (p + 1)}" "iVar < nv" "jVar < nv"
    for p index iVar jVar
  proof -
    have p: "p < n" "rp ! p \<le> index" "index < rp ! (p + 1)" using that by simp_all
    have "\<not> (rp ! node_i \<le> index \<and> index < rp ! (node_i + 1))"
      by (rule row_not_in_other[OF sorted(1,2) p(1) _ that(2) p(2,3)]) (use node in \<open>simp add: n_def\<close>)
    then show ?thesis using slot[OF p that(4,5)] slot1[OF p that(4,5)] that(2) by auto
  qed
  \<comment> \<open>right-hand side\<close>
  have B2: "B2 ! (p * nv + iVar) = m b ! (p * nv + iVar) -
       (\<Sum>index\<in>{rp ! p..<rp ! (p + 1)}.
          if ci ! index = node_i
          then (\<Sum>jVar<nv. M1 ! (index * nv * nv + iVar * nv + jVar) * X ! (xo + jVar))
          else 0)"
    if "p < n" "iVar < nv" for p iVar
  proof -
    define k where "k = p * nv + iVar"
    have k: "k < length (m b)" unfolding k_def len(2) n_def[symmetric] nv_def[symmetric]
      by (rule slot_lt[OF that])
    define T where "T = (\<lambda>h :: nat \<times> nat. \<Sum>jVar<nv. M1 ! (snd h * nv * nv + iVar * nv + jVar) * X ! (xo + jVar))"
    have pt: "rhs_sub nv X xo M1 h B ! k = (if fst h = p then B ! k - T h else B ! k)"
      if "k < length B" for h B
    proof -
      have "fst h * nv \<le> k \<and> k < fst h * nv + nv \<longleftrightarrow> p = fst h"
        unfolding k_def by (rule in_block_iff[OF \<open>iVar < nv\<close>])
      then show ?thesis using nth_rhs_sub[OF that, of nv X xo M1 h] by (auto simp: T_def k_def)
    qed
    have "B2 ! k = fold (\<lambda>h v. if fst h = p then v - T h else v) hits (m b ! k)"
      unfolding B2_def by (rule nth_fold_pointwise[where e = k]) (simp_all add: pt k)
    also have "\<dots> = m b ! k - sum_list (map T (filter (\<lambda>h. fst h = p) hits))"
      by (rule scalar_fold_sub)
    also have "filter (\<lambda>h. fst h = p) hits =
               map (Pair p) (filter (\<lambda>index. ci ! index = node_i) [rp ! p..<rp ! (p + 1)])"
      unfolding hits_def by (rule filter_fst_column_hits[OF that(1)])
    also have "sum_list (map T (map (Pair p) (filter (\<lambda>index. ci ! index = node_i) [rp ! p..<rp ! (p + 1)])))
        = (\<Sum>index\<in>{rp ! p..<rp ! (p + 1)}. if ci ! index = node_i then T (p, index) else 0)"
      by (simp add: comp_def sum_list_map_filter' interv_sum_list_conv_sum_set_nat)
    finally show ?thesis unfolding T_def k_def by (simp cong: if_cong)
  qed
  have c3: "B3 ! (p * nv + iVar) = m b ! (p * nv + iVar) -
       (\<Sum>index\<in>{rp ! p..<rp ! (p + 1)}.
          if ci ! index = node_i
          then (\<Sum>jVar<nv. M ! (index * nv * nv + iVar * nv + jVar) * X ! (xo + jVar))
          else 0)"
    if "p < n" "p \<noteq> node_i" "iVar < nv" for p iVar
  proof -
    have k: "p * nv + iVar < length B2" unfolding lenB2 by (rule slot_lt[OF that(1,3)])
    have nb: "\<not> (node_i * nv \<le> p * nv + iVar \<and> p * nv + iVar < node_i * nv + nv)"
      by (rule block_disjoint[OF that(2,3)])
    have "B3 ! (p * nv + iVar) = B2 ! (p * nv + iVar)"
      unfolding B3_def using nth_fold_assign_block[OF k, of "node_i * nv" "\<lambda>i. X ! (xo + i)" nv] nb
      by simp
    moreover have "(\<Sum>index\<in>{rp ! p..<rp ! (p + 1)}.
          if ci ! index = node_i
          then (\<Sum>jVar<nv. M1 ! (index * nv * nv + iVar * nv + jVar) * X ! (xo + jVar))
          else 0) = (\<Sum>index\<in>{rp ! p..<rp ! (p + 1)}.
          if ci ! index = node_i
          then (\<Sum>jVar<nv. M ! (index * nv * nv + iVar * nv + jVar) * X ! (xo + jVar))
          else 0)"
    proof (intro sum.cong refl if_cong)
      fix index jVar assume a: "index \<in> {rp ! p..<rp ! (p + 1)}" "jVar \<in> {..<nv}"
      have p: "p < n" "rp ! p \<le> index" "index < rp ! (p + 1)" using that a by simp_all
      have "\<not> (rp ! node_i \<le> index \<and> index < rp ! (node_i + 1))"
        by (rule row_not_in_other[OF sorted(1,2) p(1) _ that(2) p(2,3)])
           (use node in \<open>simp add: n_def\<close>)
      then show "M1 ! (index * nv * nv + iVar * nv + jVar) * X ! (xo + jVar) =
                 M ! (index * nv * nv + iVar * nv + jVar) * X ! (xo + jVar)"
        using slot1[OF p that(3), of jVar] a(2) by auto
    qed
    ultimately show ?thesis using B2[OF that(1,3)] by simp
  qed
  have c4: "B3 ! (node_i * nv + iVar) = X ! (xo + iVar)" if "iVar < nv" for iVar
  proof -
    have k: "node_i * nv + iVar < length B2" unfolding lenB2
      by (rule slot_lt) (use node that in \<open>simp_all add: n_def\<close>)
    show ?thesis
      unfolding B3_def using nth_fold_assign_block[OF k, of "node_i * nv" "\<lambda>i. X ! (xo + i)" nv] that
      by simp
  qed
  show ?thesis
    unfolding resM resB
    using c1 c2 c3 c4
    unfolding nv_def rp_def ci_def n_def M_def X_def xo_def rd_def
    by blast
qed

theorem EnforceSolutionAtNode_result_witness:
  "EnforceSolutionAtNode ex2_A 1 (B_vector 2, 0) (B_vector 0) ex4_mem B_matrix !
     (4 * nVar ex2_A * nVar ex2_A + 0 * nVar ex2_A + 0) = 1
   \<and> EnforceSolutionAtNode ex2_A 1 (B_vector 2, 0) (B_vector 0) ex4_mem B_matrix !
     (1 * nVar ex2_A * nVar ex2_A + 0 * nVar ex2_A + 0) = 0
   \<and> EnforceSolutionAtNode ex2_A 1 (B_vector 2, 0) (B_vector 0) ex4_mem (B_vector 0) !
     (0 * nVar ex2_A + 1) =
     ex4_mem (B_vector 0) ! (0 * nVar ex2_A + 1) -
       (\<Sum>index\<in>{row_ptr ex2_A ! 0..<row_ptr ex2_A ! (0 + 1)}.
          if col_ind ex2_A ! index = 1
          then (\<Sum>jVar<nVar ex2_A.
                  ex4_mem B_matrix ! (index * nVar ex2_A * nVar ex2_A + 1 * nVar ex2_A + jVar) *
                  rd ex4_mem (B_vector 2, 0) jVar)
          else 0)
   \<and> EnforceSolutionAtNode ex2_A 1 (B_vector 2, 0) (B_vector 0) ex4_mem (B_vector 0) !
     (1 * nVar ex2_A + 0) = rd ex4_mem (B_vector 2, 0) 0"
proof -
  have h: "B_vector 0 \<noteq> B_matrix" "fst (B_vector 2, 0::nat) \<noteq> B_vector 0"
    "fst (B_vector 2, 0::nat) \<noteq> B_matrix"
    by simp_all
  have p: "wf_pattern (nPoint ex2_A) (nPoint ex2_A) (row_ptr ex2_A) (col_ind ex2_A)"
    by code_simp
  have l: "length (ex4_mem B_matrix) = length (col_ind ex2_A) * nVar ex2_A * nVar ex2_A"
    "length (ex4_mem (B_vector 0)) = nPoint ex2_A * nVar ex2_A"
    by (simp_all add: ex4_mem_def ex2_state_def ex2_matrix_def ex2_A_def)
  have n: "(1::nat) < nPoint ex2_A" by (simp add: ex2_A_def)
  note th = EnforceSolutionAtNode_result[where A = ex2_A and m = ex4_mem and b = "B_vector 0"
      and x_i = "(B_vector 2, 0)" and node_i = 1, OF h p l n]
  have c1: "EnforceSolutionAtNode ex2_A 1 (B_vector 2, 0) (B_vector 0) ex4_mem B_matrix !
     (4 * nVar ex2_A * nVar ex2_A + 0 * nVar ex2_A + 0) = 1"
    using th[THEN conjunct1, rule_format, of 4 0 0] by (simp add: ex2_A_def)
  have c2: "EnforceSolutionAtNode ex2_A 1 (B_vector 2, 0) (B_vector 0) ex4_mem B_matrix !
     (1 * nVar ex2_A * nVar ex2_A + 0 * nVar ex2_A + 0) = 0"
    using th[THEN conjunct2, THEN conjunct1, rule_format, of 0 1 0 0] by (simp add: ex2_A_def)
  have c3: "EnforceSolutionAtNode ex2_A 1 (B_vector 2, 0) (B_vector 0) ex4_mem (B_vector 0) !
     (0 * nVar ex2_A + 1) =
     ex4_mem (B_vector 0) ! (0 * nVar ex2_A + 1) -
       (\<Sum>index\<in>{row_ptr ex2_A ! 0..<row_ptr ex2_A ! (0 + 1)}.
          if col_ind ex2_A ! index = 1
          then (\<Sum>jVar<nVar ex2_A.
                  ex4_mem B_matrix ! (index * nVar ex2_A * nVar ex2_A + 1 * nVar ex2_A + jVar) *
                  rd ex4_mem (B_vector 2, 0) jVar)
          else 0)"
    by (rule th[THEN conjunct2, THEN conjunct2, THEN conjunct1, rule_format, of 0 1])
       (simp_all add: ex2_A_def)
  have c4: "EnforceSolutionAtNode ex2_A 1 (B_vector 2, 0) (B_vector 0) ex4_mem (B_vector 0) !
     (1 * nVar ex2_A + 0) = rd ex4_mem (B_vector 2, 0) 0"
    by (rule th[THEN conjunct2, THEN conjunct2, THEN conjunct2, rule_format, of 0])
       (simp_all add: ex2_A_def)
  show ?thesis using c1 c2 c3 c4 by blast
qed

section \<open>Assignment and accumulation in \<open>CompleteComms\<close>\<close>




section \<open>The matrix-vector product\<close>

text \<open>
  C1. For vectors that conform to the matrix, \<open>MatrixVectorProduct\<close> returns
  normally, and afterwards: the result vector holds, at every component of
  every owned point \<open>row_i < nPointDomain\<close>, the sum over the nonzero blocks of
  the row of the block times the matching block of \<open>vec\<close> (\<open>row_sum\<close>; nothing of
  the previous content of the result remains, it was set to zero first); at
  every ghost point of the receive lists it holds the values that arrived for
  it, and at any other ghost point zero; the send buffer holds, for every
  point of the send lists, the product just computed at that point; and the
  exchange is one \<open>InitiateComms\<close> followed by one \<open>CompleteComms\<close> in forward
  mode, after the products. Hence the ghost entries are the values that the
  neighbour computed: whenever a second partition calls \<open>MatrixVectorProduct\<close> on
  its own matrix and vector and the message-passing layer delivers its message
  \<open>jSend\<close> as message \<open>jRecv\<close> of this partition, the ghost points of message \<open>jRecv\<close>
  hold the products of the neighbour at the points it sent.
\<close>

theorem MatrixVectorProduct_result:
  fixes A :: CSysMatrix and s :: "('a::field) state"
  assumes "conforming A geometry vec prd env s"
  shows "\<exists>s'. MatrixVectorProduct NDEBUG A geometry vec prd env s = Inr s' \<and>
      length (mem s' (vec_val prd)) = nPoint A * nVar A \<and>
      (\<forall>row_i<nPointDomain A. \<forall>iVar<nVar A.
         mem s' (vec_val prd) ! (row_i * nVar A + iVar) =
           row_sum (nVar A) (row_ptr A) (col_ind A) (mem s B_matrix) (mem s (vec_val vec))
             row_i iVar) \<and>
      (\<forall>k<length (Local_Point_P2PRecv geometry). \<forall>iVar<nVar A.
         mem s' (vec_val prd) ! (Local_Point_P2PRecv geometry ! k * nVar A + iVar) =
           incoming env ! (k * countPerPoint s' + iVar)) \<and>
      (\<forall>p<nPoint A. nPointDomain A \<le> p \<longrightarrow> p \<notin> set (Local_Point_P2PRecv geometry) \<longrightarrow>
         (\<forall>iVar<nVar A. mem s' (vec_val prd) ! (p * nVar A + iVar) = 0)) \<and>
      (\<forall>k<length (Local_Point_P2PSend geometry). \<forall>iVar<nVar A.
         mem s' B_bufD_P2PSend ! (k * countPerPoint s' + iVar) =
           row_sum (nVar A) (row_ptr A) (col_ind A) (mem s B_matrix) (mem s (vec_val vec))
             (Local_Point_P2PSend geometry ! k) iVar) \<and>
      countPerPoint s' = max (countPerPoint s) (nVar A) \<and>
      comm_log s' = comm_log s @ [Initiate SOLUTION_MATRIX, Complete SOLUTION_MATRIX] \<and>
      (\<forall>A2 geometry2 vec2 prd2 env2 s2 s2' NDEBUG2 jSend jRecv.
         conforming A2 geometry2 vec2 prd2 env2 (s2 :: 'a state) \<and>
         MatrixVectorProduct NDEBUG2 A2 geometry2 vec2 prd2 env2 s2 = Inr s2' \<and>
         nVar A2 = nVar A \<and> countPerPoint s2' = countPerPoint s' \<and>
         jSend < nP2PSend geometry2 \<and> jRecv < nP2PRecv geometry \<and>
         delivers (countPerPoint s') (nPoint_P2PSend geometry2) jSend (mem s2' B_bufD_P2PSend)
           (nPoint_P2PRecv geometry) jRecv (incoming env)
         \<longrightarrow> (\<forall>i<nPoint_P2PRecv geometry ! (jRecv + 1) - nPoint_P2PRecv geometry ! jRecv.
               \<forall>iVar<nVar A.
                 mem s' (vec_val prd) !
                   (Local_Point_P2PRecv geometry ! (nPoint_P2PRecv geometry ! jRecv + i) * nVar A + iVar) =
                 row_sum (nVar A2) (row_ptr A2) (col_ind A2) (mem s2 B_matrix)
                   (mem s2 (vec_val vec2))
                   (Local_Point_P2PSend geometry2 ! (nPoint_P2PSend geometry2 ! jSend + i)) iVar))"
proof -
  let ?nv = "nVar A"
  let ?LP = "Local_Point_P2PRecv geometry"
  let ?NP = "nPoint_P2PRecv geometry"
  from MatrixVectorProduct_partition[OF assms, of NDEBUG]
  obtain s' where s': "MatrixVectorProduct NDEBUG A geometry vec prd env s = Inr s'"
    and len: "length (mem s' (vec_val prd)) = nPoint A * ?nv"
    and owned: "\<forall>row_i<nPointDomain A. \<forall>iVar<?nv.
         mem s' (vec_val prd) ! (row_i * ?nv + iVar) =
           row_sum ?nv (row_ptr A) (col_ind A) (mem s B_matrix) (mem s (vec_val vec)) row_i iVar"
    and ghost: "\<forall>k<length ?LP. \<forall>iVar<?nv.
         mem s' (vec_val prd) ! (?LP ! k * ?nv + iVar) =
           incoming env ! (k * max (countPerPoint s) ?nv + iVar)"
    and zero: "\<forall>p<nPoint A. nPointDomain A \<le> p \<longrightarrow> p \<notin> set ?LP \<longrightarrow>
         (\<forall>iVar<?nv. mem s' (vec_val prd) ! (p * ?nv + iVar) = 0)"
    and sendbuf: "\<forall>k<length (Local_Point_P2PSend geometry). \<forall>iVar<?nv.
         mem s' B_bufD_P2PSend ! (k * max (countPerPoint s) ?nv + iVar) =
           row_sum ?nv (row_ptr A) (col_ind A) (mem s B_matrix) (mem s (vec_val vec))
             (Local_Point_P2PSend geometry ! k) iVar"
    and cpp: "countPerPoint s' = max (countPerPoint s) ?nv"
    and log: "comm_log s' = comm_log s @ [Initiate SOLUTION_MATRIX, Complete SOLUTION_MATRIX]"
    by blast
  have wfr: "wf_offsets (nP2PRecv geometry) ?NP ?LP"
    using assms by (simp add: conforming_def wf_recv_def)
  have link: "mem s' (vec_val prd) ! (?LP ! (?NP ! jRecv + i) * ?nv + iVar) =
                 row_sum (nVar A2) (row_ptr A2) (col_ind A2) (mem s2 B_matrix)
                   (mem s2 (vec_val vec2))
                   (Local_Point_P2PSend geometry2 ! (nPoint_P2PSend geometry2 ! jSend + i)) iVar"
    if c2: "conforming A2 geometry2 vec2 prd2 env2 s2"
      and run2: "MatrixVectorProduct NDEBUG2 A2 geometry2 vec2 prd2 env2 s2 = Inr s2'"
      and same: "nVar A2 = ?nv" "countPerPoint s2' = countPerPoint s'"
      and j: "jSend < nP2PSend geometry2" "jRecv < nP2PRecv geometry"
      and del: "delivers (countPerPoint s') (nPoint_P2PSend geometry2) jSend (mem s2' B_bufD_P2PSend)
           ?NP jRecv (incoming env)"
      and i: "i < ?NP ! (jRecv + 1) - ?NP ! jRecv" "iVar < ?nv"
    for A2 geometry2 vec2 prd2 env2 and s2 s2' :: "'a state" and NDEBUG2 jSend jRecv i iVar
  proof -
    let ?NS = "nPoint_P2PSend geometry2"
    let ?LS = "Local_Point_P2PSend geometry2"
    define c where "c = countPerPoint s'"
    from MatrixVectorProduct_partition[OF c2, of NDEBUG2] run2
    have send2: "\<forall>k<length ?LS. \<forall>iVar<nVar A2.
         mem s2' B_bufD_P2PSend ! (k * max (countPerPoint s2) (nVar A2) + iVar) =
           row_sum (nVar A2) (row_ptr A2) (col_ind A2) (mem s2 B_matrix) (mem s2 (vec_val vec2))
             (?LS ! k) iVar"
      and cpp2: "countPerPoint s2' = max (countPerPoint s2) (nVar A2)"
      by auto
    have wfs2: "wf_offsets (nP2PSend geometry2) ?NS ?LS"
      using c2 by (simp add: conforming_def wf_send_def)
    have cnt: "?NP ! (jRecv + 1) - ?NP ! jRecv = ?NS ! (jSend + 1) - ?NS ! jSend"
      and copy: "\<forall>t\<in>set [0..<(?NS ! (jSend + 1) - ?NS ! jSend) * c].
        incoming env ! (?NP ! jRecv * c + t) = mem s2' B_bufD_P2PSend ! (?NS ! jSend * c + t)"
      using del by (simp_all add: delivers_def c_def)
    have nvc: "?nv \<le> c" by (simp add: c_def cpp)
    have kr: "?NP ! jRecv + i < length ?LP"
      using wf_offsets_message(2)[OF wfr j(2)] i(1) by simp
    have ks: "?NS ! jSend + i < length ?LS"
      using wf_offsets_message(2)[OF wfs2 j(1)] i(1) cnt by simp
    have t: "i * c + iVar < (?NS ! (jSend + 1) - ?NS ! jSend) * c"
      using i nvc cnt by (intro slot_lt) simp_all
    have "mem s' (vec_val prd) ! (?LP ! (?NP ! jRecv + i) * ?nv + iVar) =
          incoming env ! ((?NP ! jRecv + i) * c + iVar)"
      using ghost kr i(2) by (simp add: c_def cpp)
    also have "\<dots> = incoming env ! (?NP ! jRecv * c + (i * c + iVar))"
      by (simp add: add_mult_distrib add.assoc)
    also have "\<dots> = mem s2' B_bufD_P2PSend ! (?NS ! jSend * c + (i * c + iVar))"
      using copy t by simp
    also have "\<dots> = mem s2' B_bufD_P2PSend ! ((?NS ! jSend + i) * c + iVar)"
      by (simp add: add_mult_distrib add.assoc)
    also have "\<dots> = row_sum (nVar A2) (row_ptr A2) (col_ind A2) (mem s2 B_matrix)
                   (mem s2 (vec_val vec2)) (?LS ! (?NS ! jSend + i)) iVar"
      using send2 ks i(2) same cpp2 by (simp add: c_def)
    finally show ?thesis .
  qed
  show ?thesis
  proof (intro exI[of _ s'] conjI)
    show "MatrixVectorProduct NDEBUG A geometry vec prd env s = Inr s'" by (rule s')
    show "length (mem s' (vec_val prd)) = nPoint A * ?nv" by (rule len)
    show "\<forall>row_i<nPointDomain A. \<forall>iVar<?nv.
         mem s' (vec_val prd) ! (row_i * ?nv + iVar) =
           row_sum ?nv (row_ptr A) (col_ind A) (mem s B_matrix) (mem s (vec_val vec)) row_i iVar"
      by (rule owned)
    show "\<forall>k<length ?LP. \<forall>iVar<?nv.
         mem s' (vec_val prd) ! (?LP ! k * ?nv + iVar) = incoming env ! (k * countPerPoint s' + iVar)"
      using ghost by (simp add: cpp)
    show "\<forall>p<nPoint A. nPointDomain A \<le> p \<longrightarrow> p \<notin> set ?LP \<longrightarrow>
         (\<forall>iVar<?nv. mem s' (vec_val prd) ! (p * ?nv + iVar) = 0)"
      by (rule zero)
    show "\<forall>k<length (Local_Point_P2PSend geometry). \<forall>iVar<?nv.
         mem s' B_bufD_P2PSend ! (k * countPerPoint s' + iVar) =
           row_sum ?nv (row_ptr A) (col_ind A) (mem s B_matrix) (mem s (vec_val vec))
             (Local_Point_P2PSend geometry ! k) iVar"
      using sendbuf by (simp add: cpp)
    show "countPerPoint s' = max (countPerPoint s) ?nv" by (rule cpp)
    show "comm_log s' = comm_log s @ [Initiate SOLUTION_MATRIX, Complete SOLUTION_MATRIX]" by (rule log)
    show "\<forall>A2 geometry2 vec2 prd2 env2 s2 s2' NDEBUG2 jSend jRecv.
         conforming A2 geometry2 vec2 prd2 env2 (s2 :: 'a state) \<and>
         MatrixVectorProduct NDEBUG2 A2 geometry2 vec2 prd2 env2 s2 = Inr s2' \<and>
         nVar A2 = nVar A \<and> countPerPoint s2' = countPerPoint s' \<and>
         jSend < nP2PSend geometry2 \<and> jRecv < nP2PRecv geometry \<and>
         delivers (countPerPoint s') (nPoint_P2PSend geometry2) jSend (mem s2' B_bufD_P2PSend)
           ?NP jRecv (incoming env)
         \<longrightarrow> (\<forall>i<?NP ! (jRecv + 1) - ?NP ! jRecv.
               \<forall>iVar<nVar A.
                 mem s' (vec_val prd) ! (?LP ! (?NP ! jRecv + i) * nVar A + iVar) =
                 row_sum (nVar A2) (row_ptr A2) (col_ind A2) (mem s2 B_matrix)
                   (mem s2 (vec_val vec2))
                   (Local_Point_P2PSend geometry2 ! (nPoint_P2PSend geometry2 ! jSend + i)) iVar)"
      using link by blast
  qed
qed

theorem MatrixVectorProduct_result_witness:
  "\<exists>s'. MatrixVectorProduct False ex2_A ex2_geometry ex2_vec ex2_prod ex2_env ex2_state = Inr s' \<and>
      mem s' (vec_val ex2_prod) ! 0 = 13 \<and>
      mem s' B_bufD_P2PSend ! 0 = 13 \<and>
      mem s' (vec_val ex2_prod) ! 4 = 10 \<and>
      mem s' (vec_val ex2_prod) ! 5 = 20 \<and>
      comm_log s' = [Initiate SOLUTION_MATRIX, Complete SOLUTION_MATRIX]"
proof -
  from MatrixVectorProduct_result[OF ex3_conforming, of False]
  obtain s3 where run3: "MatrixVectorProduct False ex3_A ex3_geometry ex3_vec ex3_prod ex1_env ex3_state
                          = Inr s3"
    and send3: "\<forall>k<length (Local_Point_P2PSend ex3_geometry). \<forall>iVar<nVar ex3_A.
         mem s3 B_bufD_P2PSend ! (k * countPerPoint s3 + iVar) =
           row_sum (nVar ex3_A) (row_ptr ex3_A) (col_ind ex3_A) (mem ex3_state B_matrix)
             (mem ex3_state (vec_val ex3_vec)) (Local_Point_P2PSend ex3_geometry ! k) iVar"
    and cpp3: "countPerPoint s3 = max (countPerPoint ex3_state) (nVar ex3_A)"
    by (elim exE conjE) blast
  have c3: "countPerPoint s3 = 2" using cpp3 by (simp add: ex3_state_def ex3_A_def)
  have b3: "mem s3 B_bufD_P2PSend ! 0 = 10" "mem s3 B_bufD_P2PSend ! Suc 0 = 20"
    using send3[rule_format, of 0 0] send3[rule_format, of 0 "Suc 0"] ex3_row_sum c3
    by (simp_all add: ex3_geometry_def ex3_A_def)
  from MatrixVectorProduct_result[OF ex2_conforming, of False]
  obtain s' where run: "MatrixVectorProduct False ex2_A ex2_geometry ex2_vec ex2_prod ex2_env ex2_state
                          = Inr s'"
    and owned: "\<forall>row_i<nPointDomain ex2_A. \<forall>iVar<nVar ex2_A.
         mem s' (vec_val ex2_prod) ! (row_i * nVar ex2_A + iVar) =
           row_sum (nVar ex2_A) (row_ptr ex2_A) (col_ind ex2_A) (mem ex2_state B_matrix)
             (mem ex2_state (vec_val ex2_vec)) row_i iVar"
    and sendbuf: "\<forall>k<length (Local_Point_P2PSend ex2_geometry). \<forall>iVar<nVar ex2_A.
         mem s' B_bufD_P2PSend ! (k * countPerPoint s' + iVar) =
           row_sum (nVar ex2_A) (row_ptr ex2_A) (col_ind ex2_A) (mem ex2_state B_matrix)
             (mem ex2_state (vec_val ex2_vec)) (Local_Point_P2PSend ex2_geometry ! k) iVar"
    and cpp: "countPerPoint s' = max (countPerPoint ex2_state) (nVar ex2_A)"
    and log: "comm_log s' = comm_log ex2_state @ [Initiate SOLUTION_MATRIX, Complete SOLUTION_MATRIX]"
    and link: "\<forall>A2 geometry2 vec2 prd2 env2 s2 s2' NDEBUG2 jSend jRecv.
         conforming A2 geometry2 vec2 prd2 env2 (s2 :: rat state) \<and>
         MatrixVectorProduct NDEBUG2 A2 geometry2 vec2 prd2 env2 s2 = Inr s2' \<and>
         nVar A2 = nVar ex2_A \<and> countPerPoint s2' = countPerPoint s' \<and>
         jSend < nP2PSend geometry2 \<and> jRecv < nP2PRecv ex2_geometry \<and>
         delivers (countPerPoint s') (nPoint_P2PSend geometry2) jSend (mem s2' B_bufD_P2PSend)
           (nPoint_P2PRecv ex2_geometry) jRecv (incoming ex2_env)
         \<longrightarrow> (\<forall>i<nPoint_P2PRecv ex2_geometry ! (jRecv + 1) - nPoint_P2PRecv ex2_geometry ! jRecv.
               \<forall>iVar<nVar ex2_A.
                 mem s' (vec_val ex2_prod) !
                   (Local_Point_P2PRecv ex2_geometry ! (nPoint_P2PRecv ex2_geometry ! jRecv + i)
                      * nVar ex2_A + iVar) =
                 row_sum (nVar A2) (row_ptr A2) (col_ind A2) (mem s2 B_matrix)
                   (mem s2 (vec_val vec2))
                   (Local_Point_P2PSend geometry2 ! (nPoint_P2PSend geometry2 ! jSend + i)) iVar)"
    by (elim exE conjE) blast
  have c: "countPerPoint s' = 2" using cpp by (simp add: ex2_state_def ex2_A_def)
  have del: "delivers (countPerPoint s') (nPoint_P2PSend ex3_geometry) 0 (mem s3 B_bufD_P2PSend)
           (nPoint_P2PRecv ex2_geometry) 0 (incoming ex2_env)"
    using b3 by (simp add: delivers_def c ex3_geometry_def ex2_geometry_def ex2_env_def upt_rec)
  have pre: "conforming ex3_A ex3_geometry ex3_vec ex3_prod ex1_env ex3_state \<and>
         MatrixVectorProduct False ex3_A ex3_geometry ex3_vec ex3_prod ex1_env ex3_state = Inr s3 \<and>
         nVar ex3_A = nVar ex2_A \<and> countPerPoint s3 = countPerPoint s' \<and>
         0 < nP2PSend ex3_geometry \<and> 0 < nP2PRecv ex2_geometry \<and>
         delivers (countPerPoint s') (nPoint_P2PSend ex3_geometry) 0 (mem s3 B_bufD_P2PSend)
           (nPoint_P2PRecv ex2_geometry) 0 (incoming ex2_env)"
    using ex3_conforming run3 c c3 del by (simp add: ex3_A_def ex2_A_def ex3_geometry_def ex2_geometry_def)
  note L = link[rule_format, OF pre]
  have g0: "mem s' (vec_val ex2_prod) ! 4 = 10"
    using L[of 0 0] ex3_row_sum(1) by (simp add: ex2_geometry_def ex2_A_def ex3_geometry_def)
  have g1: "mem s' (vec_val ex2_prod) ! 5 = 20"
    using L[of 0 "Suc 0"] ex3_row_sum(2) by (simp add: ex2_geometry_def ex2_A_def ex3_geometry_def)
  have o: "mem s' (vec_val ex2_prod) ! 0 = 13"
    using owned[rule_format, of 0 0] ex2_row_sum by (simp add: ex2_A_def)
  have sb: "mem s' B_bufD_P2PSend ! 0 = 13"
    using sendbuf[rule_format, of 0 0] ex2_row_sum c by (simp add: ex2_A_def ex2_geometry_def)
  show ?thesis
    using run o sb g0 g1 log by (intro exI[of _ s']) (simp add: ex2_state_def)
qed

section \<open>Growth of a linelet at its tip\<close>



section \<open>Inversion of a block in place\<close>

text \<open>
  C10. \<open>MatrixInverse(matrix, inverse)\<close> leaves in \<open>inverse\<close> the inverse of the block that
  \<open>matrix\<close> held at the call, also when \<open>matrix\<close> and \<open>inverse\<close> are the same pointer, as
  in the call \<open>MatrixInverse(inv_dm1, inv_dm1)\<close> of the Thomas pass: after the first
  phase the scratch buffer \<open>block\<close> holds the entries the matrix had at the call (and
  \<open>inverse\<close> holds the identity), and the product of the original block with the
  result is the identity, in both orders. The elimination does not pivot, so the
  statement is for a block on which it meets no zero pivot: the diagonal of \<open>block\<close>
  after the elimination phase, which holds the divisors of both later phases, has
  no zero. The buffer \<open>block\<close> is distinct from the buffer of \<open>inverse\<close>, and
  \<open>matrix\<close> is either the pointer \<open>inverse\<close> itself or a pointer into a third buffer.
  The arithmetic is that of a field.
\<close>

theorem MatrixInverse_aliasing_safe:
  fixes m :: "('a::field) memory"
  assumes "fst inverse' \<noteq> B_block"
    and "nvar * nvar \<le> length (m B_block)"
    and "snd inverse' + nvar * nvar \<le> length (m (fst inverse'))"
    and "matrix = inverse' \<or> (fst matrix \<noteq> fst inverse' \<and> fst matrix \<noteq> B_block)"
    and "\<forall>j<nvar. entry nvar (MatrixInverse_eliminate nvar inverse'
                                 (MatrixInverse_copy nvar matrix inverse' m))
                      (B_block, 0) j j \<noteq> 0"
    and "i < nvar" "k < nvar"
  shows "entry nvar (MatrixInverse_copy nvar matrix inverse' m) (B_block, 0) i k
           = entry nvar m matrix i k
       \<and> block_product nvar (entry nvar m matrix)
           (entry nvar (MatrixInverse nvar matrix inverse' m) inverse') i k
           = (if i = k then 1 else 0)
       \<and> block_product nvar (entry nvar (MatrixInverse nvar matrix inverse' m) inverse')
           (entry nvar m matrix) i k
           = (if i = k then 1 else 0)"
proof -
  from MatrixInverse_copy_entries[OF assms(1,2,3,4)] assms(6,7)
  have "entry nvar (MatrixInverse_copy nvar matrix inverse' m) (B_block, 0) i k
           = entry nvar m matrix i k"
    by simp
  with MatrixInverse_is_inverse[OF assms] show ?thesis
    by (simp add: block_product_def)
qed

theorem MatrixInverse_aliasing_safe_witness:
  "MatrixInverse 2 (B_LineletInvDiag, 4) (B_LineletInvDiag, 4) ex7_mem B_LineletInvDiag
     = [9, 9, 9, 9, 1, - 1, - 1, 2]
   \<and> entry 2 (MatrixInverse_copy 2 (B_LineletInvDiag, 4) (B_LineletInvDiag, 4) ex7_mem)
       (B_block, 0) 1 0 = entry 2 ex7_mem (B_LineletInvDiag, 4) 1 0
   \<and> block_product 2 (entry 2 ex7_mem (B_LineletInvDiag, 4))
       (entry 2 (MatrixInverse 2 (B_LineletInvDiag, 4) (B_LineletInvDiag, 4) ex7_mem)
          (B_LineletInvDiag, 4)) 1 0 = 0
   \<and> block_product 2
       (entry 2 (MatrixInverse 2 (B_LineletInvDiag, 4) (B_LineletInvDiag, 4) ex7_mem)
          (B_LineletInvDiag, 4))
       (entry 2 ex7_mem (B_LineletInvDiag, 4)) 1 0 = 0"
proof -
  have u2: "[0..<2] = [0, Suc 0]" "[1..<2] = [Suc 0]" "[Suc 0..<2] = [Suc 0]"
    "[0..<Suc 0] = [0]" "[2..<2] = []"
    by (simp_all add: upt_rec)
  have c: "MatrixInverse_copy 2 (B_LineletInvDiag, 4) (B_LineletInvDiag, 4) ex7_mem
             = (\<lambda>b. [])(B_block := [2, 1, 1, 1], B_LineletInvDiag := [9, 9, 9, 9, 1, 0, 0, 1])"
    by (rule ext) (simp add: MatrixInverse_copy_def ex7_mem_def u2 rd_def wr_def)
  have e: "MatrixInverse_eliminate 2 (B_LineletInvDiag, 4)
             ((\<lambda>b. [])(B_block := [2, 1, 1, 1], B_LineletInvDiag := [9, 9, 9, 9, 1, 0, 0, 1]))
             = (\<lambda>b. [])(B_block := [2, 1, 0, 1 / 2 :: rat],
                  B_LineletInvDiag := [9, 9, 9, 9, 1, 0, - (1 / 2), 1])"
    by (rule ext) (simp add: MatrixInverse_eliminate_def u2 rd_def wr_def Let_def)
  have s: "MatrixInverse_substitute 2 (B_LineletInvDiag, 4)
             ((\<lambda>b. [])(B_block := [2, 1, 0, 1 / 2 :: rat],
                  B_LineletInvDiag := [9, 9, 9, 9, 1, 0, - (1 / 2), 1]))
             = (\<lambda>b. [])(B_block := [2, 1, 0, 1 / 2 :: rat],
                  B_LineletInvDiag := [9, 9, 9, 9, 1, - 1, - 1, 2])"
    by (rule ext) (simp add: MatrixInverse_substitute_def u2 rd_def wr_def Let_def)
  have r: "MatrixInverse 2 (B_LineletInvDiag, 4) (B_LineletInvDiag, 4) ex7_mem B_LineletInvDiag
     = [9, 9, 9, 9, 1, - 1, - 1, 2]"
    by (simp add: MatrixInverse_def c e s)
  have piv: "\<forall>j<2. entry 2 (MatrixInverse_eliminate 2 (B_LineletInvDiag, 4)
                         (MatrixInverse_copy 2 (B_LineletInvDiag, 4) (B_LineletInvDiag, 4) ex7_mem))
                      (B_block, 0) j j \<noteq> 0"
    by (auto simp add: c e entry_def rd_def less_2_cases_iff)
  have h: "fst (B_LineletInvDiag, 4 :: nat) \<noteq> B_block"
    "2 * 2 \<le> length (ex7_mem B_block)"
    "snd (B_LineletInvDiag, 4 :: nat) + 2 * 2 \<le> length (ex7_mem (fst (B_LineletInvDiag, 4 :: nat)))"
    "(B_LineletInvDiag, 4 :: nat) = (B_LineletInvDiag, 4)
       \<or> (fst (B_LineletInvDiag, 4 :: nat) \<noteq> fst (B_LineletInvDiag, 4 :: nat)
           \<and> fst (B_LineletInvDiag, 4 :: nat) \<noteq> B_block)"
    by (simp_all add: ex7_mem_def)
  from MatrixInverse_aliasing_safe[OF h piv, of 1 0] r show ?thesis by simp
qed

end
